theory Spec2Isabelle
  imports Main "HOL-Library.List_Lexorder" "HOL-Library.Multiset"
begin

section \<open>Python text\<close>

text \<open>
  A Python \<open>str\<close> is a sequence of Unicode code points. A code point is a natural
  number here and a string is a list of them, so that \<open>length\<close>, equality and
  \<open>in\<close> count what Python counts. \<open>ustr\<close> turns an ASCII literal into such a string.
\<close>

type_synonym pychar = nat
type_synonym pystr = "pychar list"
type_synonym pydict = "pystr \<rightharpoonup> pystr"

definition ustr :: "string \<Rightarrow> pystr" where
  "ustr s = map of_char s"

definition LF :: pychar where
  "LF = 10"

definition CR :: pychar where
  "CR = 13"

text \<open>The glyph of line 41 of formatter.py is U+00B7 (MIDDLE DOT).\<close>

definition bullet :: pychar where
  "bullet = 183"

text \<open>
  \<open>isspace\<close> is CPython's \<open>Py_UNICODE_ISSPACE\<close>: the characters that \<open>str.strip()\<close>
  removes and that \<open>\s\<close> matches in a \<open>str\<close> pattern. \<open>islinebreak\<close> is
  \<open>Py_UNICODE_ISLINEBREAK\<close>: the characters at which \<open>str.splitlines()\<close> breaks.
\<close>

definition isspace :: "pychar \<Rightarrow> bool" where
  "isspace c \<longleftrightarrow>
     c \<in> {9, 10, 11, 12, 13, 28, 29, 30, 31, 32, 133, 160, 5760,
          8232, 8233, 8239, 8287, 12288} \<or> (8192 \<le> c \<and> c \<le> 8202)"

definition islinebreak :: "pychar \<Rightarrow> bool" where
  "islinebreak c \<longleftrightarrow> c \<in> {10, 11, 12, 13, 28, 29, 30, 133, 8232, 8233}"

definition strip :: "pystr \<Rightarrow> pystr" where
  "strip s = rev (dropWhile isspace (rev (dropWhile isspace s)))"

text \<open>
  \<open>str.splitlines()\<close>: the text up to the next line break is a line, the break is
  skipped (a carriage return followed by a line feed counts as one break), and the
  loop goes on while text remains. No line is produced for the empty rest after a
  final break.
\<close>

definition skip_break :: "pystr \<Rightarrow> pystr" where
  "skip_break s =
     (case s of
        [] \<Rightarrow> []
      | c # cs \<Rightarrow>
          (case cs of
             [] \<Rightarrow> []
           | d # ds \<Rightarrow> if c = CR \<and> d = LF then ds else cs))"

function splitlines :: "pystr \<Rightarrow> pystr list" where
  "splitlines s =
     (if s = [] then []
      else takeWhile (\<lambda>c. \<not> islinebreak c) s
             # splitlines (skip_break (dropWhile (\<lambda>c. \<not> islinebreak c) s)))"
  by pat_completeness auto
termination
proof (relation "measure length")
  show "wf (measure length)" by simp
next
  fix s :: pystr
  assume "s \<noteq> []"
  have "length (skip_break (dropWhile (\<lambda>c. \<not> islinebreak c) s))
          \<le> length (dropWhile (\<lambda>c. \<not> islinebreak c) s) - 1"
    by (simp add: skip_break_def split: list.split)
  moreover have "length (dropWhile (\<lambda>c. \<not> islinebreak c) s) \<le> length s"
    by (rule length_dropWhile_le)
  ultimately show "(skip_break (dropWhile (\<lambda>c. \<not> islinebreak c) s), s) \<in> measure length"
    using \<open>s \<noteq> []\<close> by (cases s) auto
qed

declare splitlines.simps [simp del]

text \<open>
  \<open>open(path, 'r')\<close> reads in text mode with universal newlines: on the way in,
  a carriage return, alone or followed by a line feed, becomes one line feed.
  The argument is the decoded content of the file.
\<close>

fun universal_newlines :: "pystr \<Rightarrow> pystr" where
  "universal_newlines [] = []"
| "universal_newlines [c] = (if c = CR then [LF] else [c])"
| "universal_newlines (c # d # cs) =
     (if c = CR \<and> d = LF then LF # universal_newlines cs
      else if c = CR then LF # universal_newlines (d # cs)
      else c # universal_newlines (d # cs))"

text \<open>
  \<open>re.split(r'\n\s*\n+', text)\<close>. \<open>blank_run s\<close> is the length of what the pattern
  matches at the start of \<open>s\<close>, if it matches there: a line feed, then the greedy
  \<open>\s*\<close> takes the whole run of whitespace and gives back characters until a line
  feed follows, so the match ends with the last line feed of the run (\<open>\n+\<close> cannot
  take more, no line feed follows that one in the run). \<open>re_split\<close> cuts the text at
  the leftmost matches, from left to right, and returns the pieces between them;
  the empty text gives one empty piece.
\<close>

definition blank_run :: "pystr \<Rightarrow> nat option" where
  "blank_run s =
     (case s of
        [] \<Rightarrow> None
      | c # cs \<Rightarrow>
          if c \<noteq> LF then None
          else let ws = takeWhile isspace cs;
                   m = rev (dropWhile (\<lambda>x. x \<noteq> LF) (rev ws))
               in if m = [] then None else Some (Suc (length m)))"

fun re_split :: "pystr \<Rightarrow> pystr list" where
  "re_split [] = [[]]"
| "re_split (c # cs) =
     (case blank_run (c # cs) of
        Some n \<Rightarrow> [] # re_split (drop (n - 1) cs)
      | None \<Rightarrow>
          (case re_split cs of
             [] \<Rightarrow> [[c]]
           | b # bs \<Rightarrow> (c # b) # bs))"

section \<open>The block parser (formatter.py)\<close>

datatype py_error = IndexError | OperationalError | ProgrammingError

text \<open>Reading a list at an index raises \<open>IndexError\<close> out of range.\<close>

definition getitem :: "'a list \<Rightarrow> nat \<Rightarrow> py_error + 'a" where
  "getitem xs i = (if i < length xs then Inr (xs ! i) else Inl IndexError)"

definition labels :: "pystr list" where
  "labels =
     [ustr ''Type'', ustr ''Position effect'', ustr ''Time in force'',
      ustr ''Submitted'', ustr ''Quantity'', ustr ''Account'', ustr ''Status'',
      ustr ''Filled quantity'', ustr ''Filled'', ustr ''Limit price'',
      ustr ''Est cost'', ustr ''Est regulatory fees'']"

text \<open>
  Steps 3 and 4 of the loop body: the stripped lines of a block that are not empty,
  and of these the lines without the glyph, which take part in parsing.
\<close>

definition nonblank_lines :: "pystr \<Rightarrow> pystr list" where
  "nonblank_lines block =
     (let raw_lines = map strip (splitlines block)
      in filter (\<lambda>line. line \<noteq> []) raw_lines)"

definition block_lines :: "pystr \<Rightarrow> pystr list" where
  "block_lines block = filter (\<lambda>line. bullet \<notin> set line) (nonblank_lines block)"

text \<open>The inner \<open>while\<close> loop of step 8: \<open>idx\<close> moves to the next line equal to the label.\<close>

function advance :: "pystr list \<Rightarrow> pystr \<Rightarrow> nat \<Rightarrow> py_error + nat" where
  "advance lines label idx =
     (if idx < length lines then
        (case getitem lines idx of
           Inl e \<Rightarrow> Inl e
         | Inr line \<Rightarrow>
             if line \<noteq> label then advance lines label (idx + 1) else Inr idx)
      else Inr idx)"
  by pat_completeness auto
termination
  by (relation "measure (\<lambda>(lines, label, idx). length lines - idx)") auto

declare advance.simps [simp del]

text \<open>One round of the \<open>for label in labels\<close> loop, on the state \<open>(idx, parsed)\<close>.\<close>

definition label_step ::
  "pystr list \<Rightarrow> pystr \<Rightarrow> nat \<times> pydict \<Rightarrow> py_error + nat \<times> pydict" where
  "label_step lines label st =
     (case st of (idx0, parsed) \<Rightarrow>
        (case advance lines label idx0 of
           Inl e \<Rightarrow> Inl e
         | Inr idx \<Rightarrow>
             if idx < length lines then
               (case getitem lines idx of
                  Inl e \<Rightarrow> Inl e
                | Inr line \<Rightarrow>
                    if line = label \<and> idx + 1 < length lines then
                      (case getitem lines (idx + 1) of
                         Inl e \<Rightarrow> Inl e
                       | Inr v \<Rightarrow> Inr (idx + 2, parsed(label \<mapsto> v)))
                    else Inr (idx + 1, parsed))
             else Inr (idx + 1, parsed)))"

fun scan_labels ::
  "pystr list \<Rightarrow> pystr list \<Rightarrow> nat \<times> pydict \<Rightarrow> py_error + nat \<times> pydict" where
  "scan_labels lines [] st = Inr st"
| "scan_labels lines (label # rest) st =
     (case label_step lines label st of
        Inl e \<Rightarrow> Inl e
      | Inr st' \<Rightarrow> scan_labels lines rest st')"

text \<open>
  The body of the loop over the blocks: \<open>None\<close> is the \<open>continue\<close> of a block with
  fewer than three lines, \<open>Some parsed\<close> the dictionary appended to \<open>all_trades\<close>.
\<close>

definition parse_block :: "pystr \<Rightarrow> py_error + pydict option" where
  "parse_block block =
     (let lines = block_lines block in
      if length lines < 3 then Inr None
      else
        (case getitem lines 0 of Inl e \<Rightarrow> Inl e | Inr header \<Rightarrow>
        (case getitem lines 1 of Inl e \<Rightarrow> Inl e | Inr total_cost \<Rightarrow>
        (case getitem lines 2 of Inl e \<Rightarrow> Inl e | Inr quantity_price \<Rightarrow>
        (case scan_labels lines labels
                (3, [ustr ''header'' \<mapsto> header,
                     ustr ''Total Cost'' \<mapsto> total_cost,
                     ustr ''Quantity + Price'' \<mapsto> quantity_price]) of
           Inl e \<Rightarrow> Inl e
         | Inr (idx, parsed) \<Rightarrow> Inr (Some parsed))))))"

fun parse_blocks :: "pystr list \<Rightarrow> pydict list \<Rightarrow> py_error + pydict list" where
  "parse_blocks [] all_trades = Inr all_trades"
| "parse_blocks (block # rest) all_trades =
     (case parse_block block of
        Inl e \<Rightarrow> Inl e
      | Inr None \<Rightarrow> parse_blocks rest all_trades
      | Inr (Some parsed) \<Rightarrow> parse_blocks rest (all_trades @ [parsed]))"

text \<open>\<open>parse_trade_file\<close> from the text that was read, and from the content of the file.\<close>

definition trade_blocks :: "pystr \<Rightarrow> pystr list" where
  "trade_blocks raw_text = re_split (strip raw_text)"

definition parse_trade_text :: "pystr \<Rightarrow> py_error + pydict list" where
  "parse_trade_text raw_text = parse_blocks (trade_blocks raw_text) []"

definition parse_trade_file :: "pystr \<Rightarrow> py_error + pydict list" where
  "parse_trade_file content = parse_trade_text (universal_newlines content)"

subsection \<open>The extraction step as the specification words it\<close>

text \<open>
  The specification describes step 5 on the remaining lines themselves: the cursor
  is the list of lines not yet passed. For a label, the lines not equal to it are
  passed; if the cursor then stands on the label and a line follows, that line is
  the value and the cursor goes past both, otherwise it goes one line on and
  nothing is captured.
\<close>

definition spec_step :: "pystr \<Rightarrow> pystr list \<times> pydict \<Rightarrow> pystr list \<times> pydict" where
  "spec_step label st =
     (case st of (cursor, fields) \<Rightarrow>
        (case dropWhile (\<lambda>line. line \<noteq> label) cursor of
           l # v # after \<Rightarrow> (after, fields(label \<mapsto> v))
         | r \<Rightarrow> (drop 1 r, fields)))"

fun spec_scan :: "pystr list \<Rightarrow> pystr list \<times> pydict \<Rightarrow> pystr list \<times> pydict" where
  "spec_scan [] st = st"
| "spec_scan (label # rest) st = spec_scan rest (spec_step label st)"

definition spec_record :: "pystr list \<Rightarrow> pydict option" where
  "spec_record lines =
     (case lines of
        header # total_cost # quantity_price # remaining \<Rightarrow>
          Some (snd (spec_scan labels
                       (remaining,
                        [ustr ''header'' \<mapsto> header,
                         ustr ''Total Cost'' \<mapsto> total_cost,
                         ustr ''Quantity + Price'' \<mapsto> quantity_price])))
      | _ \<Rightarrow> None)"

section \<open>The journal (trading_journal.py)\<close>

text \<open>
  The table \<open>trades\<close> of the SQLite file: a row is the tuple of its column values,
  the \<open>id\<close> first. \<open>columns\<close> are the columns that \<open>insert_trade\<close> binds, in the order
  of the \<open>CREATE TABLE\<close> statement; \<open>colnames\<close> is what \<open>SELECT *\<close> describes. The
  database is \<open>None\<close> as long as the table does not exist. The values that the
  application stores are text (the strings of its input widgets and an ISO
  timestamp), so the dictionary given to \<open>insert_trade\<close> has text values.
\<close>

datatype sql_value = Null | Integer nat | Text pystr

type_synonym row = "sql_value list"
type_synonym database = "row list option"
type_synonym sqldict = "pystr \<rightharpoonup> sql_value"

definition columns :: "pystr list" where
  "columns =
     [ustr ''header'', ustr ''total_cost'', ustr ''quantity_price'', ustr ''type'',
      ustr ''position_effect'', ustr ''time_in_force'', ustr ''submitted'',
      ustr ''quantity'', ustr ''account'', ustr ''status'', ustr ''filled_quantity'',
      ustr ''filled'', ustr ''limit_price'', ustr ''est_cost'', ustr ''est_reg_fees'',
      ustr ''suggestion'', ustr ''comment'', ustr ''saved_at'']"

definition colnames :: "pystr list" where
  "colnames = ustr ''id'' # columns"

definition init_db :: "database \<Rightarrow> database" where
  "init_db db = (case db of None \<Rightarrow> Some [] | Some table \<Rightarrow> Some table)"

text \<open>
  The named parameters of the \<open>INSERT\<close> statement are looked up in the dictionary;
  a missing one raises \<open>ProgrammingError\<close>, further keys are ignored.
\<close>

fun bind_params :: "pydict \<Rightarrow> pystr list \<Rightarrow> py_error + sql_value list" where
  "bind_params record [] = Inr []"
| "bind_params record (name # names) =
     (case record name of
        None \<Rightarrow> Inl ProgrammingError
      | Some v \<Rightarrow>
          (case bind_params record names of
             Inl e \<Rightarrow> Inl e
           | Inr vs \<Rightarrow> Inr (Text v # vs)))"

text \<open>
  \<open>AUTOINCREMENT\<close> gives a new row the successor of the largest id ever used; no row
  is ever deleted or inserted with an id of its own, so that is the number of rows
  plus one.
\<close>

definition insert_trade :: "database \<Rightarrow> pydict \<Rightarrow> py_error + database" where
  "insert_trade db record =
     (case db of
        None \<Rightarrow> Inl OperationalError
      | Some table \<Rightarrow>
          (case bind_params record columns of
             Inl e \<Rightarrow> Inl e
           | Inr vs \<Rightarrow> Inr (Some (table @ [Integer (Suc (length table)) # vs]))))"

text \<open>
  The order of SQLite on stored values: \<open>NULL\<close> first, then integers, then text by
  the bytes of its UTF-8 encoding, which is the lexicographic order of the code
  points.
\<close>

fun sql_le :: "sql_value \<Rightarrow> sql_value \<Rightarrow> bool" where
  "sql_le Null _ = True"
| "sql_le (Integer m) Null = False"
| "sql_le (Integer m) (Integer n) = (m \<le> n)"
| "sql_le (Integer m) (Text b) = True"
| "sql_le (Text a) (Text b) = (a \<le> b)"
| "sql_le (Text a) _ = False"

definition row_dict :: "row \<Rightarrow> sqldict" where
  "row_dict r = map_of (zip colnames r)"

definition saved_at :: "sqldict \<Rightarrow> sql_value" where
  "saved_at d = (case d (ustr ''saved_at'') of Some v \<Rightarrow> v | None \<Rightarrow> Null)"

text \<open>
  \<open>ORDER BY saved_at DESC\<close>. SQL leaves the order of rows with equal keys open; here
  they keep the order of the table.
\<close>

fun insert_desc :: "row \<Rightarrow> row list \<Rightarrow> row list" where
  "insert_desc r [] = [r]"
| "insert_desc r (x # xs) =
     (if sql_le (saved_at (row_dict x)) (saved_at (row_dict r)) then r # x # xs
      else x # insert_desc r xs)"

fun order_by_saved_at_desc :: "row list \<Rightarrow> row list" where
  "order_by_saved_at_desc [] = []"
| "order_by_saved_at_desc (r # rs) = insert_desc r (order_by_saved_at_desc rs)"

definition fetch_all_trades :: "database \<Rightarrow> py_error + sqldict list" where
  "fetch_all_trades db =
     (case db of
        None \<Rightarrow> Inl OperationalError
      | Some table \<Rightarrow> Inr (map row_dict (order_by_saved_at_desc table)))"

text \<open>
  The row that \<open>insert_trade\<close> appends for a dictionary, given the id: the bound
  values in the order of the columns.
\<close>

definition stored_row :: "nat \<Rightarrow> pydict \<Rightarrow> row" where
  "stored_row i record =
     Integer i # map (\<lambda>name. case record name of Some v \<Rightarrow> Text v | None \<Rightarrow> Null) columns"

text \<open>A sequence of calls of \<open>insert_trade\<close>, stopped by the first error.\<close>

fun insert_all :: "database \<Rightarrow> pydict list \<Rightarrow> py_error + database" where
  "insert_all db [] = Inr db"
| "insert_all db (record # rest) =
     (case insert_trade db record of
        Inl e \<Rightarrow> Inl e
      | Inr db' \<Rightarrow> insert_all db' rest)"

subsection \<open>A trade of an uploaded JSON file\<close>

definition expected_keys :: "pystr set" where
  "expected_keys =
     {ustr ''header'', ustr ''Total Cost'', ustr ''Quantity + Price'', ustr ''Type'',
      ustr ''Position effect'', ustr ''Time in force'', ustr ''Submitted'',
      ustr ''Quantity'', ustr ''Account'', ustr ''Status'', ustr ''Filled quantity'',
      ustr ''Filled'', ustr ''Limit price'', ustr ''Est cost'',
      ustr ''Est regulatory fees''}"

text \<open>
  Lines 142 to 144: the warning is shown when the set of missing keys is not empty,
  and names its elements (in the order in which Python iterates over the set).
\<close>

definition missing_warning :: "pydict \<Rightarrow> pystr set option" where
  "missing_warning trade_data =
     (let missing = expected_keys - dom trade_data
      in if missing \<noteq> {} then Some missing else None)"

definition dict_get :: "pydict \<Rightarrow> pystr \<Rightarrow> pystr \<Rightarrow> pystr" where
  "dict_get d key dflt = (case d key of Some v \<Rightarrow> v | None \<Rightarrow> dflt)"

text \<open>
  Lines 179 to 198: the dictionary built when the save button is pressed, from the
  session state of the page, the prefix of the widget keys of this trade, the
  trade object, the two annotations and the time stamp.
\<close>

definition build_record ::
  "pydict \<Rightarrow> pystr \<Rightarrow> pydict \<Rightarrow> pystr \<Rightarrow> pystr \<Rightarrow> pystr \<Rightarrow> pydict" where
  "build_record session_state prefix trade_data suggestion comment now =
     [ustr ''header'' \<mapsto>
        dict_get session_state (ustr ''hdr_'' @ prefix) (dict_get trade_data (ustr ''header'') []),
      ustr ''total_cost'' \<mapsto>
        dict_get session_state (ustr ''tc_'' @ prefix) (dict_get trade_data (ustr ''Total Cost'') []),
      ustr ''quantity_price'' \<mapsto>
        dict_get session_state (ustr ''qp_'' @ prefix)
          (dict_get trade_data (ustr ''Quantity + Price'') []),
      ustr ''type'' \<mapsto>
        dict_get session_state (ustr ''type_'' @ prefix) (dict_get trade_data (ustr ''Type'') []),
      ustr ''position_effect'' \<mapsto>
        dict_get session_state (ustr ''peff_'' @ prefix)
          (dict_get trade_data (ustr ''Position effect'') []),
      ustr ''time_in_force'' \<mapsto>
        dict_get session_state (ustr ''tif_'' @ prefix)
          (dict_get trade_data (ustr ''Time in force'') []),
      ustr ''submitted'' \<mapsto>
        dict_get session_state (ustr ''sub_'' @ prefix) (dict_get trade_data (ustr ''Submitted'') []),
      ustr ''quantity'' \<mapsto>
        dict_get session_state (ustr ''qty_'' @ prefix) (dict_get trade_data (ustr ''Quantity'') []),
      ustr ''account'' \<mapsto>
        dict_get session_state (ustr ''acct_'' @ prefix) (dict_get trade_data (ustr ''Account'') []),
      ustr ''status'' \<mapsto>
        dict_get session_state (ustr ''stat_'' @ prefix) (dict_get trade_data (ustr ''Status'') []),
      ustr ''filled_quantity'' \<mapsto>
        dict_get session_state (ustr ''fq_'' @ prefix)
          (dict_get trade_data (ustr ''Filled quantity'') []),
      ustr ''filled'' \<mapsto>
        dict_get session_state (ustr ''filled_'' @ prefix) (dict_get trade_data (ustr ''Filled'') []),
      ustr ''limit_price'' \<mapsto>
        dict_get session_state (ustr ''lp_'' @ prefix)
          (dict_get trade_data (ustr ''Limit price'') []),
      ustr ''est_cost'' \<mapsto>
        dict_get session_state (ustr ''ec_'' @ prefix) (dict_get trade_data (ustr ''Est cost'') []),
      ustr ''est_reg_fees'' \<mapsto>
        dict_get session_state (ustr ''erf_'' @ prefix)
          (dict_get trade_data (ustr ''Est regulatory fees'') []),
      ustr ''suggestion'' \<mapsto> suggestion,
      ustr ''comment'' \<mapsto> comment,
      ustr ''saved_at'' \<mapsto> now]"

definition save_trade ::
  "database \<Rightarrow> pydict \<Rightarrow> pystr \<Rightarrow> pydict \<Rightarrow> pystr \<Rightarrow> pystr \<Rightarrow> pystr \<Rightarrow> py_error + database" where
  "save_trade db session_state prefix trade_data suggestion comment now =
     insert_trade db (build_record session_state prefix trade_data suggestion comment now)"

text \<open>
  The fifteen fields of a trade: the column of the saved record, the start of the
  widget key, and the key of the trade object, as lines 180 to 194 pair them.
\<close>

definition fields :: "(pystr \<times> pystr \<times> pystr) list" where
  "fields =
     [(ustr ''header'', ustr ''hdr_'', ustr ''header''),
      (ustr ''total_cost'', ustr ''tc_'', ustr ''Total Cost''),
      (ustr ''quantity_price'', ustr ''qp_'', ustr ''Quantity + Price''),
      (ustr ''type'', ustr ''type_'', ustr ''Type''),
      (ustr ''position_effect'', ustr ''peff_'', ustr ''Position effect''),
      (ustr ''time_in_force'', ustr ''tif_'', ustr ''Time in force''),
      (ustr ''submitted'', ustr ''sub_'', ustr ''Submitted''),
      (ustr ''quantity'', ustr ''qty_'', ustr ''Quantity''),
      (ustr ''account'', ustr ''acct_'', ustr ''Account''),
      (ustr ''status'', ustr ''stat_'', ustr ''Status''),
      (ustr ''filled_quantity'', ustr ''fq_'', ustr ''Filled quantity''),
      (ustr ''filled'', ustr ''filled_'', ustr ''Filled''),
      (ustr ''limit_price'', ustr ''lp_'', ustr ''Limit price''),
      (ustr ''est_cost'', ustr ''ec_'', ustr ''Est cost''),
      (ustr ''est_reg_fees'', ustr ''erf_'', ustr ''Est regulatory fees'')]"

section \<open>Facts about \<open>strip\<close>\<close>

lemma strip_Nil [simp]: "strip [] = []"
  by (simp add: strip_def)

lemma dropWhile_all: "\<forall>c\<in>set w. P c \<Longrightarrow> dropWhile P w = []"
  by (simp add: dropWhile_eq_Nil_conv)

lemma dropWhile_all_append:
  "\<forall>c\<in>set w. P c \<Longrightarrow> dropWhile P (w @ s) = dropWhile P s"
  by (induction w) simp_all

lemma strip_spaces_append:
  "\<forall>c\<in>set w. isspace c \<Longrightarrow> strip (w @ s) = strip s"
  by (simp add: strip_def dropWhile_all_append)

lemma strip_append_spaces:
  assumes "\<forall>c\<in>set w. isspace c"
  shows "strip (s @ w) = strip s"
proof (cases "\<forall>c\<in>set s. isspace c")
  case True
  with assms show ?thesis by (simp add: strip_def dropWhile_all)
next
  case False
  then obtain x where "x \<in> set s" "\<not> isspace x" by blast
  then have "dropWhile isspace (s @ w) = dropWhile isspace s @ w"
    by (rule dropWhile_append1)
  moreover have "dropWhile isspace (rev w @ rev (dropWhile isspace s))
      = dropWhile isspace (rev (dropWhile isspace s))"
    using assms by (intro dropWhile_all_append) simp
  ultimately show ?thesis
    by (simp add: strip_def)
qed

lemma strip_all_space: "\<forall>c\<in>set w. isspace c \<Longrightarrow> strip w = []"
  by (simp add: strip_def dropWhile_all)

lemma strip_eq_Nil_iff: "strip s = [] \<longleftrightarrow> (\<forall>c\<in>set s. isspace c)"
proof
  assume "strip s = []"
  then have "\<forall>c\<in>set (dropWhile isspace s). isspace c"
    by (simp add: strip_def dropWhile_eq_Nil_conv)
  then have "dropWhile isspace s = []"
    by (metis dropWhile_eq_Nil_conv hd_dropWhile list.set_sel(1))
  then show "\<forall>c\<in>set s. isspace c"
    by (simp add: dropWhile_eq_Nil_conv)
qed (rule strip_all_space)

lemma strip_decomp:
  "\<exists>pre post. s = pre @ strip s @ post \<and> (\<forall>c\<in>set pre. isspace c) \<and> (\<forall>c\<in>set post. isspace c)"
proof -
  define pre where "pre = takeWhile isspace s"
  define t where "t = dropWhile isspace s"
  define post where "post = rev (takeWhile isspace (rev t))"
  have "s = pre @ t" by (simp add: pre_def t_def)
  moreover have "rev t = takeWhile isspace (rev t) @ dropWhile isspace (rev t)" by simp
  then have "t = rev (dropWhile isspace (rev t)) @ post"
    unfolding post_def by (metis rev_append rev_rev_ident)
  moreover have "strip s = rev (dropWhile isspace (rev t))" by (simp add: strip_def t_def)
  moreover have "\<forall>c\<in>set pre. isspace c" unfolding pre_def by (auto dest: set_takeWhileD)
  moreover have "\<forall>c\<in>set post. isspace c" unfolding post_def by (auto dest: set_takeWhileD)
  ultimately show ?thesis by metis
qed


lemma strip_idem: "strip (strip s) = strip s"
proof -
  obtain pre post where "s = pre @ strip s @ post" "\<forall>c\<in>set pre. isspace c" "\<forall>c\<in>set post. isspace c"
    using strip_decomp by blast
  then have "strip s = strip (strip s @ post)"
    by (metis strip_spaces_append)
  also have "\<dots> = strip (strip s)"
    using \<open>\<forall>c\<in>set post. isspace c\<close> by (rule strip_append_spaces)
  finally show ?thesis by simp
qed

section \<open>Facts about the lines of a block\<close>

lemma islinebreak_isspace: "islinebreak c \<Longrightarrow> isspace c"
  by (auto simp: islinebreak_def isspace_def)

lemma nonblank_lines_Nil [simp]: "nonblank_lines [] = []"
  by (simp add: nonblank_lines_def splitlines.simps)

lemma nonblank_lines_unfold:
  "s \<noteq> [] \<Longrightarrow> nonblank_lines s =
     (if strip (takeWhile (\<lambda>c. \<not> islinebreak c) s) = [] then []
      else [strip (takeWhile (\<lambda>c. \<not> islinebreak c) s)])
     @ nonblank_lines (skip_break (dropWhile (\<lambda>c. \<not> islinebreak c) s))"
  by (subst nonblank_lines_def, subst splitlines.simps) (simp add: nonblank_lines_def)

lemma set_skip_break: "set (skip_break s) \<subseteq> set s"
  by (auto simp: skip_break_def split: list.splits if_splits)

lemma length_skip_break: "s \<noteq> [] \<Longrightarrow> length (skip_break s) < length s"
  by (auto simp: skip_break_def split: list.splits)

lemma nonblank_lines_spaces:
  "\<forall>c\<in>set w. isspace c \<Longrightarrow> nonblank_lines w = []"
proof (induction w rule: length_induct)
  case (1 w)
  show ?case
  proof (cases "w = []")
    case True
    then show ?thesis by simp
  next
    case False
    let ?r = "skip_break (dropWhile (\<lambda>c. \<not> islinebreak c) w)"
    have sub: "set ?r \<subseteq> set w"
    proof
      fix x assume "x \<in> set ?r"
      then have "x \<in> set (dropWhile (\<lambda>c. \<not> islinebreak c) w)"
        using set_skip_break by blast
      then show "x \<in> set w" by (rule set_dropWhileD)
    qed
    have "length ?r < length w"
    proof (cases "dropWhile (\<lambda>c. \<not> islinebreak c) w = []")
      case E: True
      have "skip_break [] = []" by (simp add: skip_break_def)
      with False show ?thesis unfolding E by simp
    next
      case F: False
      then have "length ?r < length (dropWhile (\<lambda>c. \<not> islinebreak c) w)"
        by (rule length_skip_break)
      also have "\<dots> \<le> length w" by (rule length_dropWhile_le)
      finally show ?thesis .
    qed
    with 1 sub have "nonblank_lines ?r = []" by blast
    moreover have "strip (takeWhile (\<lambda>c. \<not> islinebreak c) w) = []"
      using "1.prems" by (intro strip_all_space) (auto dest: set_takeWhileD)
    ultimately show ?thesis
      using nonblank_lines_unfold[OF False] by simp
  qed
qed

lemma skip_break_Cons:
  "skip_break (c # s) = (if c = CR \<and> s \<noteq> [] \<and> hd s = LF then tl s else s)"
  by (cases s) (simp_all add: skip_break_def)

lemma nonblank_lines_break_Cons:
  assumes "islinebreak c"
  shows "nonblank_lines (c # s) = nonblank_lines (skip_break (c # s))"
  using nonblank_lines_unfold[of "c # s"] assms by simp

lemma nonblank_lines_space_Cons:
  assumes "isspace c"
  shows "nonblank_lines (c # s) = nonblank_lines s"
proof (cases "islinebreak c")
  case True
  have lf: "nonblank_lines (LF # t) = nonblank_lines t" for t
  proof -
    have "islinebreak LF" by (simp add: islinebreak_def LF_def)
    then have "nonblank_lines (LF # t) = nonblank_lines (skip_break (LF # t))"
      by (rule nonblank_lines_break_Cons)
    also have "skip_break (LF # t) = t"
      by (simp add: skip_break_Cons LF_def CR_def)
    finally show ?thesis .
  qed
  show ?thesis
  proof (cases "c = CR \<and> s \<noteq> [] \<and> hd s = LF")
    case T: True
    then obtain t where s: "s = LF # t" by (cases s) auto
    have "nonblank_lines (c # s) = nonblank_lines (skip_break (c # s))"
      using True by (rule nonblank_lines_break_Cons)
    also have "skip_break (c # s) = t" using T s by (simp add: skip_break_Cons)
    finally show ?thesis using s lf by simp
  next
    case False
    have "nonblank_lines (c # s) = nonblank_lines (skip_break (c # s))"
      using True by (rule nonblank_lines_break_Cons)
    also have "skip_break (c # s) = s" using False by (auto simp: skip_break_Cons)
    finally show ?thesis .
  qed
next
  case False
  show ?thesis
  proof (cases "s = []")
    case True
    have "strip [c] = []" using assms by (intro strip_all_space) simp
    moreover have "skip_break [] = []" by (simp add: skip_break_def)
    ultimately show ?thesis
      using nonblank_lines_unfold[of "[c]"] False True by simp
  next
    case F: False
    have "strip (c # takeWhile (\<lambda>c. \<not> islinebreak c) s) = strip (takeWhile (\<lambda>c. \<not> islinebreak c) s)"
      using strip_spaces_append[of "[c]"] assms by simp
    then show ?thesis
      using nonblank_lines_unfold[of "c # s"] nonblank_lines_unfold[OF F] False by simp
  qed
qed


lemma skip_break_Nil [simp]: "skip_break [] = []"
  by (simp add: skip_break_def)

lemma all_space_skip_break:
  "\<forall>c\<in>set w. isspace c \<Longrightarrow> \<forall>c\<in>set (skip_break w). isspace c"
  using set_skip_break by blast

lemma nonblank_lines_append_spaces:
  "\<forall>c\<in>set w. isspace c \<Longrightarrow> nonblank_lines (s @ w) = nonblank_lines s"
proof (induction s arbitrary: w rule: length_induct)
  case (1 s)
  let ?nb = "\<lambda>c. \<not> islinebreak c"
  show ?case
  proof (cases "s = []")
    case True
    with "1.prems" show ?thesis by (simp add: nonblank_lines_spaces)
  next
    case False
    show ?thesis
    proof (cases "\<exists>x\<in>set s. islinebreak x")
      case True
      then obtain x where x: "x \<in> set s" "\<not> ?nb x" by auto
      have tw: "takeWhile ?nb (s @ w) = takeWhile ?nb s"
        using x by (rule takeWhile_append1)
      have dw: "dropWhile ?nb (s @ w) = dropWhile ?nb s @ w"
        using x by (rule dropWhile_append1)
      have ne: "dropWhile ?nb s \<noteq> []"
        using x by (auto simp: dropWhile_eq_Nil_conv)
      then obtain c cs where r: "dropWhile ?nb s = c # cs" by (cases "dropWhile ?nb s") auto
      have len: "length (skip_break (dropWhile ?nb s)) < length s"
      proof -
        have "length (skip_break (dropWhile ?nb s)) < length (dropWhile ?nb s)"
          using ne by (rule length_skip_break)
        also have "\<dots> \<le> length s" by (rule length_dropWhile_le)
        finally show ?thesis .
      qed
      have rest: "nonblank_lines (skip_break (dropWhile ?nb s @ w))
                  = nonblank_lines (skip_break (dropWhile ?nb s))"
      proof (cases "cs = []")
        case True
        have "\<forall>c\<in>set (skip_break (c # w)). isspace c"
        proof -
          have "set (skip_break (c # w)) \<subseteq> set w"
            by (auto simp: skip_break_Cons dest: list.set_sel(2))
          with "1.prems" show ?thesis by blast
        qed
        then have "nonblank_lines (skip_break (c # w)) = []"
          by (rule nonblank_lines_spaces)
        moreover have "nonblank_lines (skip_break [c]) = []"
          by (simp add: skip_break_Cons)
        ultimately show ?thesis using r True by simp
      next
        case F: False
        then have "skip_break ((c # cs) @ w) = skip_break (c # cs) @ w"
          by (cases cs) (auto simp: skip_break_Cons)
        with r len "1.IH" "1.prems" show ?thesis by simp
      qed
      have "s @ w \<noteq> []" using False by simp
      from nonblank_lines_unfold[OF this] nonblank_lines_unfold[OF False]
      show ?thesis by (simp only: tw dw rest)
    next
      case F2: False
      then have all: "\<forall>x\<in>set s. ?nb x" by blast
      have tw: "takeWhile ?nb (s @ w) = s @ takeWhile ?nb w"
        using all by (simp add: takeWhile_append2)
      have dw: "dropWhile ?nb (s @ w) = dropWhile ?nb w"
        using all by (simp add: dropWhile_all_append)
      have tws: "takeWhile ?nb s = s" using all by simp
      have dws: "dropWhile ?nb s = []" using all by simp
      have "\<forall>c\<in>set (takeWhile ?nb w). isspace c"
        using "1.prems" by (auto dest: set_takeWhileD)
      then have st: "strip (s @ takeWhile ?nb w) = strip s"
        by (rule strip_append_spaces)
      have "\<forall>c\<in>set (dropWhile ?nb w). isspace c"
        using "1.prems" by (auto dest: set_dropWhileD)
      then have "\<forall>c\<in>set (skip_break (dropWhile ?nb w)). isspace c"
        by (rule all_space_skip_break)
      then have rest: "nonblank_lines (skip_break (dropWhile ?nb w)) = []"
        by (rule nonblank_lines_spaces)
      have "s @ w \<noteq> []" using False by simp
      from nonblank_lines_unfold[OF this] nonblank_lines_unfold[OF False]
      show ?thesis by (simp add: tw dw tws dws st rest)
    qed
  qed
qed



section \<open>Facts about the split into blocks\<close>














section \<open>The index cursor and the cursor of the specification\<close>

lemma advance_eq:
  "advance lines label idx = Inr (idx + length (takeWhile (\<lambda>l. l \<noteq> label) (drop idx lines)))"
proof (induction lines label idx rule: advance.induct)
  case (1 lines label idx)
  show ?case
  proof (cases "idx < length lines")
    case True
    then have d: "drop idx lines = lines ! idx # drop (Suc idx) lines"
      by (simp add: Cons_nth_drop_Suc)
    show ?thesis
    proof (cases "lines ! idx = label")
      case True
      with \<open>idx < length lines\<close> d show ?thesis
        by (subst advance.simps) (simp add: getitem_def)
    next
      case False
      with \<open>idx < length lines\<close> d "1.IH"[of "lines ! idx"] show ?thesis
        by (subst advance.simps) (simp add: getitem_def)
    qed
  next
    case False
    then show ?thesis by (subst advance.simps) simp
  qed
qed

lemma label_step_eq:
  "\<exists>idx'. label_step lines label (idx, parsed)
             = Inr (idx', snd (spec_step label (drop idx lines, parsed)))
      \<and> idx < idx' \<and> drop idx' lines = fst (spec_step label (drop idx lines, parsed))"
proof -
  define k where "k = length (takeWhile (\<lambda>l. l \<noteq> label) (drop idx lines))"
  have dk: "dropWhile (\<lambda>l. l \<noteq> label) (drop idx lines) = drop (idx + k) lines"
    unfolding k_def by (simp add: dropWhile_eq_drop add.commute)
  have adv: "advance lines label idx = Inr (idx + k)"
    unfolding k_def by (rule advance_eq)
  show ?thesis
  proof (cases "idx + k < length lines")
    case False
    then have dw: "dropWhile (\<lambda>l. l \<noteq> label) (drop idx lines) = []"
      using dk by simp
    from False show ?thesis
      by (simp add: label_step_def adv spec_step_def dw)
  next
    case True
    then have d: "drop (idx + k) lines = lines ! (idx + k) # drop (Suc (idx + k)) lines"
      by (simp add: Cons_nth_drop_Suc)
    have "dropWhile (\<lambda>l. l \<noteq> label) (drop idx lines) \<noteq> []"
      using dk d by simp
    then have "hd (dropWhile (\<lambda>l. l \<noteq> label) (drop idx lines)) = label"
      using hd_dropWhile[of "\<lambda>l. l \<noteq> label" "drop idx lines"] by simp
    with dk d have lab: "lines ! (idx + k) = label" by simp
    show ?thesis
    proof (cases "idx + k + 1 < length lines")
      case False
      then have "drop (Suc (idx + k)) lines = []" by simp
      with d dk have dw: "dropWhile (\<lambda>l. l \<noteq> label) (drop idx lines) = [label]"
        using lab by simp
      from True False lab show ?thesis
        by (simp add: label_step_def adv spec_step_def getitem_def dw)
    next
      case T2: True
      then have "drop (Suc (idx + k)) lines
          = lines ! (Suc (idx + k)) # drop (Suc (Suc (idx + k))) lines"
        by (simp add: Cons_nth_drop_Suc)
      with d dk have dw: "dropWhile (\<lambda>l. l \<noteq> label) (drop idx lines)
          = label # lines ! (Suc (idx + k)) # drop (Suc (Suc (idx + k))) lines"
        using lab by simp
      from True T2 lab show ?thesis
        by (simp add: label_step_def adv spec_step_def getitem_def dw)
    qed
  qed
qed

lemma scan_labels_eq:
  "\<exists>idx'. scan_labels lines ls (idx, parsed)
             = Inr (idx', snd (spec_scan ls (drop idx lines, parsed)))
      \<and> idx \<le> idx' \<and> drop idx' lines = fst (spec_scan ls (drop idx lines, parsed))"
proof (induction ls arbitrary: idx parsed)
  case Nil
  then show ?case by simp
next
  case (Cons l ls)
  obtain i1 where s: "label_step lines l (idx, parsed)
                        = Inr (i1, snd (spec_step l (drop idx lines, parsed)))"
    and lt: "idx < i1" and dr: "drop i1 lines = fst (spec_step l (drop idx lines, parsed))"
    using label_step_eq by blast
  from Cons.IH[of i1 "snd (spec_step l (drop idx lines, parsed))"] s lt dr
  show ?case by (auto simp: less_imp_le)
qed

lemma parse_block_eq: "parse_block block = Inr (spec_record (block_lines block))"
proof (cases "length (block_lines block) < 3")
  case True
  then have "spec_record (block_lines block) = None"
    by (auto simp: spec_record_def split: list.splits)
  with True show ?thesis by (simp add: parse_block_def)
next
  case False
  then have "3 \<le> length (block_lines block)" by simp
  then obtain h t q rest where l: "block_lines block = h # t # q # rest"
    by (auto simp: numeral_3_eq_3 Suc_le_length_iff)
  obtain idx' where "scan_labels (h # t # q # rest) labels
        (3, [ustr ''header'' \<mapsto> h, ustr ''Total Cost'' \<mapsto> t, ustr ''Quantity + Price'' \<mapsto> q])
      = Inr (idx', snd (spec_scan labels (drop 3 (h # t # q # rest),
               [ustr ''header'' \<mapsto> h, ustr ''Total Cost'' \<mapsto> t, ustr ''Quantity + Price'' \<mapsto> q])))"
    using scan_labels_eq by blast
  then show ?thesis
    by (simp add: parse_block_def l getitem_def spec_record_def)
qed

lemma parse_blocks_eq:
  "parse_blocks bs acc = Inr (acc @ List.map_filter (\<lambda>b. spec_record (block_lines b)) bs)"
  by (induction bs arbitrary: acc) (simp_all add: parse_block_eq List.map_filter_simps split: option.splits)

lemma parse_trade_text_eq:
  "parse_trade_text t = Inr (List.map_filter (\<lambda>b. spec_record (block_lines b)) (trade_blocks t))"
  by (simp add: parse_trade_text_def parse_blocks_eq)

section \<open>Facts about the scan and the records\<close>

lemma spec_scan_append: "spec_scan (xs @ ys) st = spec_scan ys (spec_scan xs st)"
  by (induction xs arbitrary: st) simp_all

lemma fst_spec_step: "fst (spec_step l (c, f)) = fst (spec_step l (c, f'))"
  by (simp add: spec_step_def dropWhile_all split: list.splits)

lemma fst_spec_scan: "fst (spec_scan ls (c, f)) = fst (spec_scan ls (c, f'))"
proof (induction ls arbitrary: c f f')
  case Nil
  then show ?case by simp
next
  case (Cons l ls)
  obtain c1 f1 where a: "spec_step l (c, f) = (c1, f1)" by (cases "spec_step l (c, f)")
  obtain c2 f2 where b: "spec_step l (c, f') = (c2, f2)" by (cases "spec_step l (c, f')")
  have "c1 = c2" using fst_spec_step[of l c f f'] a b by simp
  with a b Cons.IH[of c1 f1 f2] show ?case by simp
qed

lemma snd_spec_step_other: "k \<noteq> l \<Longrightarrow> snd (spec_step l (c, f)) k = f k"
  by (simp add: spec_step_def dropWhile_all split: list.splits)

lemma snd_spec_scan_other: "k \<notin> set ls \<Longrightarrow> snd (spec_scan ls (c, f)) k = f k"
proof (induction ls arbitrary: c f)
  case Nil
  then show ?case by simp
next
  case (Cons l ls)
  obtain c1 f1 where a: "spec_step l (c, f) = (c1, f1)" by (cases "spec_step l (c, f)")
  have "f1 k = f k" using snd_spec_step_other[of k l c f] a Cons.prems by simp
  with a Cons show ?case by simp
qed

lemma snd_spec_step_self:
  "snd (spec_step l (c, f)) l =
     (case dropWhile (\<lambda>line. line \<noteq> l) c of x # v # after \<Rightarrow> Some v | _ \<Rightarrow> f l)"
  by (simp add: spec_step_def dropWhile_all split: list.splits)

lemma spec_scan_lookup:
  assumes "distinct ls" "k < length ls"
  shows "snd (spec_scan ls (c, f)) (ls ! k) =
     (case dropWhile (\<lambda>line. line \<noteq> ls ! k) (fst (spec_scan (take k ls) (c, Map.empty))) of
        x # v # after \<Rightarrow> Some v
      | _ \<Rightarrow> f (ls ! k))"
proof -
  have ls: "ls = take k ls @ ls ! k # drop (Suc k) ls"
    using assms(2) by (simp add: id_take_nth_drop)
  obtain c1 f1 where a: "spec_scan (take k ls) (c, f) = (c1, f1)"
    by (cases "spec_scan (take k ls) (c, f)")
  have c1: "c1 = fst (spec_scan (take k ls) (c, Map.empty))"
    using fst_spec_scan[of "take k ls" c f Map.empty] a by simp
  have notin1: "ls ! k \<notin> set (take k ls)"
    using assms by (metis distinct_take id_take_nth_drop not_distinct_conv_prefix)
  have notin2: "ls ! k \<notin> set (drop (Suc k) ls)"
    using assms ls by (metis distinct.simps(2) distinct_append)
  have f1: "f1 (ls ! k) = f (ls ! k)"
    using snd_spec_scan_other[OF notin1, of c f] a by simp
  obtain c2 f2 where b: "spec_step (ls ! k) (c1, f1) = (c2, f2)"
    by (cases "spec_step (ls ! k) (c1, f1)")
  have "spec_scan ls (c, f) = spec_scan (drop (Suc k) ls) (c2, f2)"
    by (subst ls) (simp add: spec_scan_append a b)
  then have "snd (spec_scan ls (c, f)) (ls ! k) = f2 (ls ! k)"
    using snd_spec_scan_other[OF notin2, of c2 f2] by simp
  also have "\<dots> = snd (spec_step (ls ! k) (c1, f1)) (ls ! k)" using b by simp
  also have "\<dots> = (case dropWhile (\<lambda>line. line \<noteq> ls ! k) c1 of
        x # v # after \<Rightarrow> Some v | _ \<Rightarrow> f1 (ls ! k))"
    by (rule snd_spec_step_self)
  finally show ?thesis using c1 f1 by (simp cong: list.case_cong)
qed

lemma length_labels: "length labels = 12"
  by (simp add: labels_def)

lemma distinct_labels: "distinct labels"
  by (simp add: labels_def ustr_def)



lemma splitlines_Nil: "splitlines [] = []"
  by (simp add: splitlines.simps)

lemma splitlines_Cons:
  "splitlines (c # cs) =
     takeWhile (\<lambda>c. \<not> islinebreak c) (c # cs)
       # splitlines (skip_break (dropWhile (\<lambda>c. \<not> islinebreak c) (c # cs)))"
  by (subst splitlines.simps) simp

lemmas text_eval =
  block_lines_def nonblank_lines_def strip_def ustr_def islinebreak_def isspace_def
  skip_break_def bullet_def CR_def LF_def splitlines_Nil splitlines_Cons
  trade_blocks_def blank_run_def

lemma spec_scan_Nil_cursor: "spec_scan ls ([], f) = ([], f)"
  by (induction ls) (simp_all add: spec_step_def)

lemma spec_record_three:
  "spec_record [h, t, q] =
     Some [ustr ''header'' \<mapsto> h, ustr ''Total Cost'' \<mapsto> t, ustr ''Quantity + Price'' \<mapsto> q]"
  by (simp add: spec_record_def spec_scan_Nil_cursor)

lemma spec_record_short: "length ls < 3 \<Longrightarrow> spec_record ls = None"
  by (auto simp: spec_record_def split: list.splits)

lemma spec_record_long: "3 \<le> length ls \<Longrightarrow> \<exists>r. spec_record ls = Some r"
  by (auto simp: spec_record_def numeral_3_eq_3 Suc_le_length_iff)

lemma map_filter_append:
  "List.map_filter f (xs @ ys) = List.map_filter f xs @ List.map_filter f ys"
  by (simp add: List.map_filter_def)

lemma eval_block_short: "block_lines (ustr ''only a header'') = [ustr ''only a header'']"
  by (simp add: text_eval)

lemma eval_block_abc: "block_lines (ustr ''A\<newline>B\<newline>C'') = [ustr ''A'', ustr ''B'', ustr ''C'']"
  by (simp add: text_eval)

lemma eval_block_xyz: "block_lines (ustr ''X\<newline>Y\<newline>Z'') = [ustr ''X'', ustr ''Y'', ustr ''Z'']"
  by (simp add: text_eval)

lemma eval_blocks_doc:
  "trade_blocks (universal_newlines (ustr ''only a header\<newline>\<newline>A\<newline>B\<newline>C''))
     = [ustr ''only a header'', ustr ''A\<newline>B\<newline>C'']"
  by (simp add: text_eval)

lemma eval_block_type_last:
  "block_lines (ustr ''Buy SPY\<newline>$94.00\<newline>2 contracts\<newline>Filled\<newline>Type\<newline>Limit\<newline>Position effect'')
     = [ustr ''Buy SPY'', ustr ''$94.00'', ustr ''2 contracts'', ustr ''Filled'',
        ustr ''Type'', ustr ''Limit'', ustr ''Position effect'']"
  by (simp add: text_eval)

lemma positional_not_label:
  "label \<in> set labels \<Longrightarrow>
     [ustr ''header'' \<mapsto> h, ustr ''Total Cost'' \<mapsto> t, ustr ''Quantity + Price'' \<mapsto> q] label = None"
  by (auto simp: labels_def ustr_def)

lemma eval_blocks_spy:
  "trade_blocks (universal_newlines (ustr ''Buy SPY $645 Call 7/31\<newline>$94.00\<newline>2 contracts at $0.47''))
     = [ustr ''Buy SPY $645 Call 7/31\<newline>$94.00\<newline>2 contracts at $0.47'']"
  by (simp add: text_eval)

lemma eval_block_spy:
  "block_lines (ustr ''Buy SPY $645 Call 7/31\<newline>$94.00\<newline>2 contracts at $0.47'')
     = [ustr ''Buy SPY $645 Call 7/31'', ustr ''$94.00'', ustr ''2 contracts at $0.47'']"
  by (simp add: text_eval)

lemma nonblank_lines_append_break:
  "pre = [] \<or> islinebreak (last pre) \<Longrightarrow>
     nonblank_lines (pre @ s) = nonblank_lines pre @ nonblank_lines s"
proof (induction pre rule: length_induct)
  case (1 pre)
  let ?nb = "\<lambda>c. \<not> islinebreak c"
  show ?case
  proof (cases "pre = []")
    case True
    then show ?thesis by simp
  next
    case False
    with "1.prems" have lb: "islinebreak (last pre)" by simp
    have x: "last pre \<in> set pre" "\<not> ?nb (last pre)" using False lb by simp_all
    have tw: "takeWhile ?nb (pre @ s) = takeWhile ?nb pre"
      using x by (rule takeWhile_append1)
    have dw: "dropWhile ?nb (pre @ s) = dropWhile ?nb pre @ s"
      using x by (rule dropWhile_append1)
    have ne: "dropWhile ?nb pre \<noteq> []"
      using x by (auto simp: dropWhile_eq_Nil_conv)
    then obtain c cs where r: "dropWhile ?nb pre = c # cs" by (cases "dropWhile ?nb pre") auto
    have c: "islinebreak c" using hd_dropWhile[OF ne] r by simp
    have len: "length (skip_break (dropWhile ?nb pre)) < length pre"
    proof -
      have "length (skip_break (dropWhile ?nb pre)) < length (dropWhile ?nb pre)"
        using ne by (rule length_skip_break)
      also have "\<dots> \<le> length pre" by (rule length_dropWhile_le)
      finally show ?thesis .
    qed
    have lastr: "last (c # cs) = last pre"
    proof -
      have "pre = takeWhile ?nb pre @ c # cs" using r by (metis takeWhile_dropWhile_id)
      then show ?thesis by (metis last_appendR list.distinct(1))
    qed
    have rest: "nonblank_lines (skip_break (dropWhile ?nb pre @ s))
                  = nonblank_lines (skip_break (dropWhile ?nb pre)) @ nonblank_lines s"
    proof (cases "cs = []")
      case True
      have "nonblank_lines (skip_break (c # s)) = nonblank_lines s"
      proof (cases "c = CR \<and> s \<noteq> [] \<and> hd s = LF")
        case T: True
        then obtain t where s: "s = LF # t" by (cases s) auto
        have "isspace LF" by (simp add: isspace_def LF_def)
        then have "nonblank_lines (LF # t) = nonblank_lines t"
          by (rule nonblank_lines_space_Cons)
        with T s show ?thesis by (simp add: skip_break_Cons)
      next
        case False
        then show ?thesis by (auto simp: skip_break_Cons)
      qed
      with r True show ?thesis by (simp add: skip_break_Cons)
    next
      case F: False
      then have sk: "skip_break ((c # cs) @ s) = skip_break (c # cs) @ s"
        by (cases cs) (auto simp: skip_break_Cons)
      have "skip_break (c # cs) = [] \<or> islinebreak (last (skip_break (c # cs)))"
      proof (cases "skip_break (c # cs) = []")
        case True
        then show ?thesis by simp
      next
        case N: False
        have "last (skip_break (c # cs)) = last (c # cs)"
          using N F by (cases cs) (auto simp: skip_break_Cons split: if_splits)
        with lastr lb show ?thesis by simp
      qed
      then have "nonblank_lines (skip_break (c # cs) @ s)
          = nonblank_lines (skip_break (c # cs)) @ nonblank_lines s"
        using "1.IH"[rule_format, of "skip_break (c # cs)"] len r by simp
      with r sk show ?thesis by simp
    qed
    have "pre @ s \<noteq> []" using False by simp
    from nonblank_lines_unfold[OF this] nonblank_lines_unfold[OF False]
    show ?thesis by (simp only: tw dw rest append_assoc)
  qed
qed

lemma nonblank_lines_one_line:
  assumes "\<forall>c\<in>set x. \<not> islinebreak c"
  shows "nonblank_lines x = (if strip x = [] then [] else [strip x])"
proof (cases "x = []")
  case True
  then show ?thesis by simp
next
  case False
  have tw: "takeWhile (\<lambda>c. \<not> islinebreak c) x = x" using assms by simp
  have dw: "dropWhile (\<lambda>c. \<not> islinebreak c) x = []" using assms by simp
  show ?thesis unfolding nonblank_lines_unfold[OF False] tw dw by simp
qed

lemma bullet_in_strip:
  assumes "bullet \<in> set x"
  shows "bullet \<in> set (strip x)"
proof -
  obtain pre post where d: "x = pre @ strip x @ post"
    and pre: "\<forall>c\<in>set pre. isspace c" and post: "\<forall>c\<in>set post. isspace c"
    using strip_decomp by blast
  have nb: "\<not> isspace bullet" by (simp add: isspace_def bullet_def)
  have "bullet \<in> set pre \<union> set (strip x) \<union> set post"
    using assms d by (metis set_append Un_assoc)
  with pre post nb show ?thesis by blast
qed

lemma block_lines_bullet_line:
  assumes "bullet \<in> set x" "\<forall>c\<in>set x. \<not> islinebreak c"
  shows "block_lines x = []"
proof -
  have "bullet \<in> set (strip x)" using assms(1) by (rule bullet_in_strip)
  then show ?thesis
    using nonblank_lines_one_line[OF assms(2)] by (auto simp: block_lines_def)
qed

lemma block_lines_append_break:
  "pre = [] \<or> islinebreak (last pre) \<Longrightarrow>
     block_lines (pre @ s) = block_lines pre @ block_lines s"
  by (simp add: block_lines_def nonblank_lines_append_break)

lemma block_lines_insert_bullet_line:
  assumes "bullet \<in> set x" "\<forall>c\<in>set x. \<not> islinebreak c"
    and "pre = [] \<or> islinebreak (last pre)"
  shows "block_lines (pre @ x @ LF # post) = block_lines (pre @ post)"
proof -
  have lf: "islinebreak LF" by (simp add: islinebreak_def LF_def)
  have "block_lines (pre @ x @ LF # post) = block_lines pre @ block_lines ((x @ [LF]) @ post)"
    using assms(3) by (simp add: block_lines_append_break)
  also have "block_lines ((x @ [LF]) @ post) = block_lines (x @ [LF]) @ block_lines post"
    using lf by (intro block_lines_append_break) simp
  also have "block_lines (x @ [LF]) = block_lines x"
  proof -
    have "\<forall>c\<in>set [LF]. isspace c" using lf by (simp add: islinebreak_isspace)
    then have "nonblank_lines (x @ [LF]) = nonblank_lines x"
      by (rule nonblank_lines_append_spaces)
    then show ?thesis by (simp add: block_lines_def)
  qed
  also have "block_lines x = []" using assms(1,2) by (rule block_lines_bullet_line)
  finally show ?thesis using assms(3) by (simp add: block_lines_append_break)
qed

lemma block_lines_append_bullet_line:
  assumes "bullet \<in> set x" "\<forall>c\<in>set x. \<not> islinebreak c"
  shows "block_lines (pre @ LF # x) = block_lines pre"
proof -
  have lf: "islinebreak LF" by (simp add: islinebreak_def LF_def)
  have "block_lines (pre @ LF # x) = block_lines ((pre @ [LF]) @ x)" by simp
  also have "\<dots> = block_lines (pre @ [LF]) @ block_lines x"
    using lf by (intro block_lines_append_break) simp
  also have "block_lines (pre @ [LF]) = block_lines pre"
  proof -
    have "\<forall>c\<in>set [LF]. isspace c" using lf by (simp add: islinebreak_isspace)
    then have "nonblank_lines (pre @ [LF]) = nonblank_lines pre"
      by (rule nonblank_lines_append_spaces)
    then show ?thesis by (simp add: block_lines_def)
  qed
  also have "block_lines x = []" using assms by (rule block_lines_bullet_line)
  finally show ?thesis by simp
qed

lemma parse_block_cong: "block_lines a = block_lines b \<Longrightarrow> parse_block a = parse_block b"
  by (simp add: parse_block_eq)

lemma spec_step_cases:
  obtains (missed) "spec_step l (c, f) = ([], f)"
  | (found) x v after where "dropWhile (\<lambda>line. line \<noteq> l) c = x # v # after"
      and "spec_step l (c, f) = (after, f(l \<mapsto> v))"
proof -
  define r where "r = dropWhile (\<lambda>line. line \<noteq> l) c"
  have s: "spec_step l (c, f) =
             (case r of x # v # after \<Rightarrow> (after, f(l \<mapsto> v)) | r' \<Rightarrow> (drop 1 r', f))"
    by (simp add: spec_step_def r_def)
  show thesis
  proof (cases r)
    case Nil
    with s show ?thesis by (intro missed) simp
  next
    case (Cons x xs)
    show ?thesis
    proof (cases xs)
      case Nil
      with s Cons show ?thesis by (intro missed) simp
    next
      case (Cons v after)
      with s \<open>r = x # xs\<close> have "spec_step l (c, f) = (after, f(l \<mapsto> v))" by simp
      moreover have "dropWhile (\<lambda>line. line \<noteq> l) c = x # v # after"
        using Cons \<open>r = x # xs\<close> r_def by simp
      ultimately show ?thesis by (intro found)
    qed
  qed
qed

lemma set_fst_spec_step: "set (fst (spec_step l (c, f))) \<subseteq> set c"
proof (cases l c f rule: spec_step_cases)
  case missed
  then show ?thesis by simp
next
  case (found x v after)
  have "set (dropWhile (\<lambda>line. line \<noteq> l) c) \<subseteq> set c"
    by (auto dest: set_dropWhileD)
  with found show ?thesis by auto
qed

lemma dom_snd_spec_step:
  "dom f \<subseteq> dom (snd (spec_step l (c, f))) \<and> dom (snd (spec_step l (c, f))) \<subseteq> insert l (dom f)"
  by (cases l c f rule: spec_step_cases) auto

lemma ran_snd_spec_step: "ran (snd (spec_step l (c, f))) \<subseteq> ran f \<union> set c"
proof (cases l c f rule: spec_step_cases)
  case missed
  then show ?thesis by simp
next
  case (found x v after)
  have "set (dropWhile (\<lambda>line. line \<noteq> l) c) \<subseteq> set c"
    by (auto dest: set_dropWhileD)
  with found have "v \<in> set c" by auto
  moreover have "ran (f(l \<mapsto> v)) \<subseteq> insert v (ran f)"
    by (auto simp: ran_def)
  ultimately show ?thesis using found by auto
qed

lemma spec_scan_dom_ran:
  "dom f \<subseteq> dom (snd (spec_scan ls (c, f)))
   \<and> dom (snd (spec_scan ls (c, f))) \<subseteq> dom f \<union> set ls
   \<and> ran (snd (spec_scan ls (c, f))) \<subseteq> ran f \<union> set c"
proof (induction ls arbitrary: c f)
  case Nil
  then show ?case by simp
next
  case (Cons l ls)
  obtain c1 f1 where a: "spec_step l (c, f) = (c1, f1)" by (cases "spec_step l (c, f)")
  have c1: "set c1 \<subseteq> set c" using set_fst_spec_step[where l=l and c=c and f=f] a by simp
  have d1: "dom f \<subseteq> dom f1" "dom f1 \<subseteq> insert l (dom f)"
    using dom_snd_spec_step[where l=l and c=c and f=f] a by simp_all
  have r1: "ran f1 \<subseteq> ran f \<union> set c"
    using ran_snd_spec_step[where l=l and c=c and f=f] a by simp
  from Cons.IH[where c=c1 and f=f1]
  have i: "dom f1 \<subseteq> dom (snd (spec_scan ls (c1, f1)))"
    "dom (snd (spec_scan ls (c1, f1))) \<subseteq> dom f1 \<union> set ls"
    "ran (snd (spec_scan ls (c1, f1))) \<subseteq> ran f1 \<union> set c1"
    by blast+
  have s: "spec_scan (l # ls) (c, f) = spec_scan ls (c1, f1)" using a by simp
  have "dom f \<subseteq> dom (snd (spec_scan ls (c1, f1)))" using d1(1) i(1) by (rule subset_trans)
  moreover have "dom (snd (spec_scan ls (c1, f1))) \<subseteq> dom f \<union> set (l # ls)"
    using i(2) d1(2) by auto
  moreover have "ran (snd (spec_scan ls (c1, f1))) \<subseteq> ran f \<union> set c"
    using i(3) r1 c1 by blast
  ultimately show ?case unfolding s by blast
qed

lemma spec_record_invariant:
  assumes "spec_record lines = Some r"
  shows "{ustr ''header'', ustr ''Total Cost'', ustr ''Quantity + Price''} \<subseteq> dom r
       \<and> dom r \<subseteq> {ustr ''header'', ustr ''Total Cost'', ustr ''Quantity + Price''} \<union> set labels
       \<and> ran r \<subseteq> set lines"
proof -
  from assms obtain h t q rest where l: "lines = h # t # q # rest"
    by (auto simp: spec_record_def split: list.splits)
  let ?f = "[ustr ''header'' \<mapsto> h, ustr ''Total Cost'' \<mapsto> t, ustr ''Quantity + Price'' \<mapsto> q]"
  have r: "r = snd (spec_scan labels (rest, ?f))"
    using assms l by (simp add: spec_record_def)
  have d: "dom ?f = {ustr ''header'', ustr ''Total Cost'', ustr ''Quantity + Price''}"
    by auto
  have "ran ?f \<subseteq> {h, t, q}" by (auto simp: ran_def split: if_splits)
  with spec_scan_dom_ran[where f="?f" and ls=labels and c=rest] r d l show ?thesis by auto
qed

lemma block_lines_member:
  assumes "v \<in> set (block_lines block)"
  shows "v \<noteq> [] \<and> strip v = v \<and> bullet \<notin> set v \<and> v \<in> set (map strip (splitlines block))"
proof -
  from assms have "v \<in> set (map strip (splitlines block))" "v \<noteq> []" "bullet \<notin> set v"
    by (auto simp: block_lines_def nonblank_lines_def)
  moreover from this(1) have "strip v = v" by (auto simp: strip_idem)
  ultimately show ?thesis by simp
qed

lemma set_universal_newlines: "set (universal_newlines s) \<subseteq> insert LF (set s)"
  by (induction s rule: universal_newlines.induct) auto

lemma parse_trade_file_blank:
  assumes "\<forall>c\<in>set D. isspace c"
  shows "parse_trade_file D = Inr []"
proof -
  have "isspace LF" by (simp add: isspace_def LF_def)
  with assms have "\<forall>c\<in>set (universal_newlines D). isspace c"
    using set_universal_newlines[of D] by auto
  then have "strip (universal_newlines D) = []" by (rule strip_all_space)
  then show ?thesis
    by (simp add: parse_trade_file_def parse_trade_text_eq trade_blocks_def block_lines_def
        spec_record_def)
qed

lemma map_filter_member:
  "r \<in> set (List.map_filter f bs) \<Longrightarrow> \<exists>b\<in>set bs. f b = Some r"
  by (auto simp: List.map_filter_def)

lemma set_fst_spec_scan: "set (fst (spec_scan ls (c, f))) \<subseteq> set c"
proof (induction ls arbitrary: c f)
  case Nil
  then show ?case by simp
next
  case (Cons l ls)
  obtain c1 f1 where a: "spec_step l (c, f) = (c1, f1)" by (cases "spec_step l (c, f)")
  have "set c1 \<subseteq> set c" using set_fst_spec_step[where l=l and c=c and f=f] a by simp
  with Cons.IH[where c=c1 and f=f1] a show ?case by auto
qed

lemma scan_labels_cursor:
  assumes "scan_labels lines ls (idx0, p) = Inr (idx, parsed)"
  shows "drop idx lines = fst (spec_scan ls (drop idx0 lines, Map.empty))"
proof -
  obtain idx' where "scan_labels lines ls (idx0, p)
      = Inr (idx', snd (spec_scan ls (drop idx0 lines, p)))"
    and "drop idx' lines = fst (spec_scan ls (drop idx0 lines, p))"
    using scan_labels_eq by blast
  with assms have "drop idx lines = fst (spec_scan ls (drop idx0 lines, p))" by simp
  then show ?thesis using fst_spec_scan[of ls "drop idx0 lines" p Map.empty] by simp
qed

lemma record_lookup:
  assumes "block_lines block = h # t # q # rest" and "k < length labels"
  shows "\<exists>r. parse_block block = Inr (Some r) \<and>
           r (labels ! k) =
             (case dropWhile (\<lambda>line. line \<noteq> labels ! k)
                     (fst (spec_scan (take k labels) (rest, Map.empty))) of
                x # v # after \<Rightarrow> Some v
              | _ \<Rightarrow> None)"
proof -
  let ?p = "[ustr ''header'' \<mapsto> h, ustr ''Total Cost'' \<mapsto> t, ustr ''Quantity + Price'' \<mapsto> q]"
  have "labels ! k \<in> set labels" using assms(2) by simp
  then have n: "?p (labels ! k) = None" by (rule positional_not_label)
  have "parse_block block = Inr (Some (snd (spec_scan labels (rest, ?p))))"
    by (simp add: parse_block_eq assms(1) spec_record_def)
  moreover have "snd (spec_scan labels (rest, ?p)) (labels ! k) =
             (case dropWhile (\<lambda>line. line \<noteq> labels ! k)
                     (fst (spec_scan (take k labels) (rest, Map.empty))) of
                x # v # after \<Rightarrow> Some v
              | _ \<Rightarrow> None)"
    unfolding spec_scan_lookup[OF distinct_labels assms(2)] n ..
  ultimately show ?thesis by blast
qed

lemma dropWhile_first_occurrence:
  "(\<exists>x after. dropWhile (\<lambda>line. line \<noteq> l) c = x # w # after)
     \<longleftrightarrow> (\<exists>before after. c = before @ l # w # after \<and> l \<notin> set before)"
proof
  assume "\<exists>x after. dropWhile (\<lambda>line. line \<noteq> l) c = x # w # after"
  then obtain x after where d: "dropWhile (\<lambda>line. line \<noteq> l) c = x # w # after" by blast
  then have "x = l" using hd_dropWhile[of "\<lambda>line. line \<noteq> l" c] by auto
  with d have "c = takeWhile (\<lambda>line. line \<noteq> l) c @ l # w # after"
    by (metis takeWhile_dropWhile_id)
  moreover have "l \<notin> set (takeWhile (\<lambda>line. line \<noteq> l) c)"
    by (auto dest: set_takeWhileD)
  ultimately show "\<exists>before after. c = before @ l # w # after \<and> l \<notin> set before" by blast
next
  assume "\<exists>before after. c = before @ l # w # after \<and> l \<notin> set before"
  then obtain before after where c: "c = before @ l # w # after" and n: "l \<notin> set before" by blast
  from n have "dropWhile (\<lambda>line. line \<noteq> l) (before @ l # w # after) = l # w # after"
    by (induction before) auto
  with c show "\<exists>x after. dropWhile (\<lambda>line. line \<noteq> l) c = x # w # after" by blast
qed

lemma case_value_iff:
  "(case r of x # v # after \<Rightarrow> Some v | _ \<Rightarrow> None) = Some w
     \<longleftrightarrow> (\<exists>x after. r = x # w # after)"
  by (cases r; cases "tl r") auto

lemma eval_block_dup:
  "block_lines (ustr ''H\<newline>C\<newline>Q\<newline>Position effect\<newline>a\<newline>Type\<newline>b\<newline>Position effect\<newline>c'')
     = [ustr ''H'', ustr ''C'', ustr ''Q'', ustr ''Position effect'', ustr ''a'',
        ustr ''Type'', ustr ''b'', ustr ''Position effect'', ustr ''c'']"
  by (simp add: text_eval)

lemma eval_block_swapped:
  "block_lines (ustr ''H\<newline>C\<newline>Q\<newline>Status\<newline>Filled\<newline>Type\<newline>Credit'')
     = [ustr ''H'', ustr ''C'', ustr ''Q'', ustr ''Status'', ustr ''Filled'',
        ustr ''Type'', ustr ''Credit'']"
  by (simp add: text_eval)

section \<open>Facts about the journal\<close>

lemma sql_le_total: "sql_le a b \<or> sql_le b a"
  by (cases a; cases b) auto

lemma sql_le_trans: "sql_le a b \<Longrightarrow> sql_le b c \<Longrightarrow> sql_le a c"
  by (cases a; cases b; cases c) auto

lemma mset_insert_desc: "mset (insert_desc r xs) = add_mset r (mset xs)"
  by (induction xs) auto

lemma mset_order_by_saved_at_desc: "mset (order_by_saved_at_desc table) = mset table"
  by (induction table) (auto simp: mset_insert_desc)

lemma set_insert_desc: "set (insert_desc r xs) = insert r (set xs)"
  using mset_insert_desc[of r xs] by (metis set_mset_add_mset_insert set_mset_mset)

lemma sorted_insert_desc:
  assumes "sorted_wrt (\<lambda>x y. sql_le (saved_at (row_dict y)) (saved_at (row_dict x))) xs"
  shows "sorted_wrt (\<lambda>x y. sql_le (saved_at (row_dict y)) (saved_at (row_dict x))) (insert_desc r xs)"
  using assms
proof (induction xs)
  case Nil
  then show ?case by simp
next
  case (Cons x xs)
  show ?case
  proof (cases "sql_le (saved_at (row_dict x)) (saved_at (row_dict r))")
    case True
    have "sql_le (saved_at (row_dict y)) (saved_at (row_dict r))" if "y \<in> set xs" for y
      using Cons.prems that True sql_le_trans by auto
    with True Cons.prems show ?thesis by auto
  next
    case False
    then have "sql_le (saved_at (row_dict r)) (saved_at (row_dict x))"
      using sql_le_total by blast
    with False Cons show ?thesis by (auto simp: set_insert_desc)
  qed
qed

lemma sorted_order_by_saved_at_desc:
  "sorted_wrt (\<lambda>x y. sql_le (saved_at (row_dict y)) (saved_at (row_dict x)))
     (order_by_saved_at_desc table)"
  by (induction table) (auto intro: sorted_insert_desc)

lemma bind_params_complete:
  "set names \<subseteq> dom record \<Longrightarrow>
     bind_params record names
       = Inr (map (\<lambda>name. case record name of Some v \<Rightarrow> Text v | None \<Rightarrow> Null) names)"
  by (induction names) auto

lemma insert_trade_complete:
  "set columns \<subseteq> dom record \<Longrightarrow>
     insert_trade (Some table) record
       = Inr (Some (table @ [stored_row (Suc (length table)) record]))"
  by (simp add: insert_trade_def bind_params_complete stored_row_def)

lemma insert_all_complete:
  "\<forall>record\<in>set records. set columns \<subseteq> dom record \<Longrightarrow>
     insert_all (Some table) records
       = Inr (Some (table @ map (\<lambda>(i, record). stored_row (Suc (length table + i)) record)
                               (enumerate 0 records)))"
proof (induction records arbitrary: table)
  case Nil
  then show ?case by simp
next
  case (Cons r rs)
  have "insert_all (Some (table @ [stored_row (Suc (length table)) r])) rs
      = Inr (Some ((table @ [stored_row (Suc (length table)) r])
           @ map (\<lambda>(i, record). stored_row (Suc (length (table @ [stored_row (Suc (length table)) r]) + i)) record)
               (enumerate 0 rs)))"
    using Cons.prems by (intro Cons.IH) simp
  moreover have "map (\<lambda>(i, record). stored_row (Suc (length (table @ [stored_row (Suc (length table)) r]) + i)) record)
               (enumerate 0 rs)
      = map (\<lambda>(i, record). stored_row (Suc (length table + i)) record) (enumerate (Suc 0) rs)"
    by (simp add: enumerate_Suc_eq split_def)
  ultimately show ?case using Cons.prems by (simp add: insert_trade_complete)
qed

lemma id_not_column: "ustr ''id'' \<notin> set columns"
  by (simp add: columns_def ustr_def)

lemma saved_at_column: "ustr ''saved_at'' \<in> set columns"
  by (simp add: columns_def)

lemma row_dict_stored_row:
  "row_dict (stored_row i record) =
     (\<lambda>name. if name = ustr ''id'' then Some (Integer i)
             else if name \<in> set columns
                  then Some (case record name of Some v \<Rightarrow> Text v | None \<Rightarrow> Null)
                  else None)"
  by (rule ext) (simp add: row_dict_def stored_row_def colnames_def map_of_zip_map id_not_column)

lemma row_dict_stored_row_columns:
  assumes "set columns \<subseteq> dom record"
  shows "row_dict (stored_row i record) |` set columns = (map_option Text \<circ> record) |` set columns"
proof (rule ext)
  fix name
  show "(row_dict (stored_row i record) |` set columns) name
          = ((map_option Text \<circ> record) |` set columns) name"
  proof (cases "name \<in> set columns")
    case True
    then have "name \<noteq> ustr ''id''" using id_not_column by blast
    moreover from True assms obtain v where "record name = Some v" by blast
    ultimately show ?thesis using True by (simp add: row_dict_stored_row restrict_map_def)
  next
    case False
    then show ?thesis by (simp add: restrict_map_def)
  qed
qed

lemma saved_at_stored_row:
  "record (ustr ''saved_at'') = Some s \<Longrightarrow> saved_at (row_dict (stored_row i record)) = Text s"
  using id_not_column saved_at_column
  by (auto simp: saved_at_def row_dict_stored_row)

lemma id_stored_row: "row_dict (stored_row i record) (ustr ''id'') = Some (Integer i)"
  by (simp add: row_dict_stored_row)


lemma fetch_all_stored:
  "fetch_all_trades (Some table) = Inr (map row_dict (order_by_saved_at_desc table))"
  by (simp add: fetch_all_trades_def)

lemma mset_map_order_by:
  "mset (map g (map row_dict (order_by_saved_at_desc table))) = mset (map g (map row_dict table))"
proof -
  have "mset (map (g \<circ> row_dict) (order_by_saved_at_desc table))
          = image_mset (g \<circ> row_dict) (mset (order_by_saved_at_desc table))"
    by simp
  also have "\<dots> = image_mset (g \<circ> row_dict) (mset table)"
    by (simp only: mset_order_by_saved_at_desc)
  finally show ?thesis by simp
qed

lemma stored_rows_columns:
  assumes "\<forall>record\<in>set records. set columns \<subseteq> dom record"
  shows "map (\<lambda>d. d |` set columns)
           (map row_dict (map (\<lambda>(i, record). stored_row (Suc (n + i)) record) (enumerate m records)))
         = map (\<lambda>record. (map_option Text \<circ> record) |` set columns) records"
  using assms
  by (induction records arbitrary: m) (simp_all add: row_dict_stored_row_columns)

lemma stored_rows_ids:
  "map (\<lambda>d. d (ustr ''id''))
     (map row_dict (map (\<lambda>(i, record). stored_row (Suc (n + i)) record) (enumerate m records)))
   = map (\<lambda>i. Some (Integer (Suc (n + i)))) [m..<m + length records]"
  by (induction records arbitrary: m) (simp_all add: id_stored_row upt_rec)

lemma dom_build_record:
  "dom (build_record session_state prefix trade_data suggestion comment now) = set columns"
  by (simp add: build_record_def columns_def) blast

lemma build_record_saved_at:
  "build_record session_state prefix trade_data suggestion comment now (ustr ''saved_at'') = Some now"
  by (simp add: build_record_def)

lemma expected_keys_fields: "expected_keys = set (map (\<lambda>(column, key_start, json_key). json_key) fields)"
  by (simp add: expected_keys_def fields_def)

lemma build_record_fields:
  "list_all (\<lambda>(column, key_start, json_key).
       build_record session_state prefix trade_data suggestion comment now column =
           Some (case session_state (key_start @ prefix) of
                   Some edited \<Rightarrow> edited
                 | None \<Rightarrow> (case trade_data json_key of Some v \<Rightarrow> v | None \<Rightarrow> []))) fields"
  by (simp add: fields_def build_record_def dict_get_def ustr_def)

lemma build_record_field:
  assumes "(column, key_start, json_key) \<in> set fields"
  shows "build_record session_state prefix trade_data suggestion comment now column =
           Some (case session_state (key_start @ prefix) of
                   Some edited \<Rightarrow> edited
                 | None \<Rightarrow> (case trade_data json_key of Some v \<Rightarrow> v | None \<Rightarrow> []))"
  using build_record_fields[of session_state prefix trade_data suggestion comment now] assms
  unfolding list_all_iff by blast

lemma save_trade_succeeds:
  "save_trade (Some table) session_state prefix trade_data suggestion comment now
     = Inr (Some (table @ [stored_row (Suc (length table))
                             (build_record session_state prefix trade_data suggestion comment now)]))"
  by (simp add: save_trade_def insert_trade_complete dom_build_record)

section \<open>The claims\<close>

subsection \<open>C1: the forward cursor\<close>

text \<open>
  Claim C1. A block with at least three lines after filtering is parsed: its first
  three lines are the positional fields, and the labelled fields are what the
  extraction step of the specification (\<open>spec_scan\<close>: a single cursor into the
  lines from the fourth on, the labels taken in declared order, lines compared
  with a label by equality, the line after a label captured and the cursor moved
  past both, otherwise moved by one and nothing captured) yields on the remaining
  lines. The labels are twelve, and every round of the loop leaves the index
  strictly greater than it found it: the cursor never moves back.
\<close>

theorem forward_cursor_extraction:
  assumes "3 \<le> length (block_lines block)"
  shows "(\<exists>header total_cost quantity_price remaining.
            block_lines block = header # total_cost # quantity_price # remaining \<and>
            parse_block block =
              Inr (Some (snd (spec_scan labels
                                (remaining,
                                 [ustr ''header'' \<mapsto> header,
                                  ustr ''Total Cost'' \<mapsto> total_cost,
                                  ustr ''Quantity + Price'' \<mapsto> quantity_price])))))
       \<and> length labels = 12
       \<and> (\<forall>label idx parsed. \<exists>idx' parsed'.
             label_step (block_lines block) label (idx, parsed) = Inr (idx', parsed')
             \<and> idx < idx')"
proof -
  from assms obtain h t q rest where l: "block_lines block = h # t # q # rest"
    by (auto simp: numeral_3_eq_3 Suc_le_length_iff)
  have "parse_block block = Inr (spec_record (block_lines block))"
    by (rule parse_block_eq)
  with l have 1: "\<exists>header total_cost quantity_price remaining.
            block_lines block = header # total_cost # quantity_price # remaining \<and>
            parse_block block =
              Inr (Some (snd (spec_scan labels
                                (remaining,
                                 [ustr ''header'' \<mapsto> header,
                                  ustr ''Total Cost'' \<mapsto> total_cost,
                                  ustr ''Quantity + Price'' \<mapsto> quantity_price]))))"
    by (simp add: spec_record_def)
  have 2: "\<forall>label idx parsed. \<exists>idx' parsed'.
             label_step (block_lines block) label (idx, parsed) = Inr (idx', parsed')
             \<and> idx < idx'"
    using label_step_eq by blast
  from 1 2 length_labels show ?thesis by blast
qed

theorem forward_cursor_extraction_witness:
  "3 \<le> length (block_lines (ustr ''Buy SPY\<newline>$94.00\<newline>2 contracts\<newline>Filled\<newline>Type\<newline>Limit\<newline>Position effect''))
   \<and> parse_block (ustr ''Buy SPY\<newline>$94.00\<newline>2 contracts\<newline>Filled\<newline>Type\<newline>Limit\<newline>Position effect'')
       = Inr (Some [ustr ''header'' \<mapsto> ustr ''Buy SPY'',
                    ustr ''Total Cost'' \<mapsto> ustr ''$94.00'',
                    ustr ''Quantity + Price'' \<mapsto> ustr ''2 contracts'',
                    ustr ''Type'' \<mapsto> ustr ''Limit''])"
proof -
  let ?B = "ustr ''Buy SPY\<newline>$94.00\<newline>2 contracts\<newline>Filled\<newline>Type\<newline>Limit\<newline>Position effect''"
  have h: "3 \<le> length (block_lines ?B)"
    by (simp add: eval_block_type_last)
  from forward_cursor_extraction[OF h]
  obtain header total_cost quantity_price remaining where
    l: "block_lines ?B = header # total_cost # quantity_price # remaining"
    and p: "parse_block ?B =
              Inr (Some (snd (spec_scan labels
                                (remaining,
                                 [ustr ''header'' \<mapsto> header,
                                  ustr ''Total Cost'' \<mapsto> total_cost,
                                  ustr ''Quantity + Price'' \<mapsto> quantity_price]))))"
    by blast
  from l have v: "header = ustr ''Buy SPY''" "total_cost = ustr ''$94.00''"
    "quantity_price = ustr ''2 contracts''"
    "remaining = [ustr ''Filled'', ustr ''Type'', ustr ''Limit'', ustr ''Position effect'']"
    by (simp_all add: eval_block_type_last)
  have "snd (spec_scan labels
               ([ustr ''Filled'', ustr ''Type'', ustr ''Limit'', ustr ''Position effect''], f))
          = f(ustr ''Type'' \<mapsto> ustr ''Limit'')" for f
    by (simp add: labels_def spec_step_def ustr_def)
  with p v h show ?thesis by simp
qed

subsection \<open>C2: parsing block by block\<close>


subsection \<open>C3: short blocks\<close>

text \<open>
  Claim C3. A block with fewer than three lines after filtering yields no record and
  no error. The records of the blocks before and after it are those these blocks
  yield on their own, so a document whose blocks are these parses to exactly them,
  and putting a block with at least three lines in its place adds exactly one
  record, at its place.
\<close>

theorem short_block_dropped:
  assumes "length (block_lines block) < 3"
  shows "parse_block block = Inr None
     \<and> (\<forall>before after. \<exists>rs1 rs2.
           parse_blocks before [] = Inr rs1 \<and> parse_blocks after [] = Inr rs2
           \<and> parse_blocks (before @ block # after) [] = Inr (rs1 @ rs2)
           \<and> (\<forall>D. trade_blocks (universal_newlines D) = before @ block # after
                   \<longrightarrow> parse_trade_file D = Inr (rs1 @ rs2))
           \<and> (\<forall>valid. 3 \<le> length (block_lines valid)
                   \<longrightarrow> (\<exists>r. parse_blocks (before @ valid # after) [] = Inr (rs1 @ r # rs2))))"
proof -
  let ?f = "\<lambda>b. spec_record (block_lines b)"
  have none: "?f block = None" using assms by (rule spec_record_short)
  have 1: "parse_block block = Inr None" by (simp add: parse_block_eq none)
  have 2: "\<exists>rs1 rs2.
           parse_blocks before [] = Inr rs1 \<and> parse_blocks after [] = Inr rs2
           \<and> parse_blocks (before @ block # after) [] = Inr (rs1 @ rs2)
           \<and> (\<forall>D. trade_blocks (universal_newlines D) = before @ block # after
                   \<longrightarrow> parse_trade_file D = Inr (rs1 @ rs2))
           \<and> (\<forall>valid. 3 \<le> length (block_lines valid)
                   \<longrightarrow> (\<exists>r. parse_blocks (before @ valid # after) [] = Inr (rs1 @ r # rs2)))"
    for before after
  proof (intro exI conjI allI impI)
    show "parse_blocks before [] = Inr (List.map_filter ?f before)"
      by (simp add: parse_blocks_eq)
    show "parse_blocks after [] = Inr (List.map_filter ?f after)"
      by (simp add: parse_blocks_eq)
    show "parse_blocks (before @ block # after) []
            = Inr (List.map_filter ?f before @ List.map_filter ?f after)"
      by (simp add: parse_blocks_eq map_filter_append none)
    show "parse_trade_file D = Inr (List.map_filter ?f before @ List.map_filter ?f after)"
      if "trade_blocks (universal_newlines D) = before @ block # after" for D
      using that by (simp add: parse_trade_file_def parse_trade_text_eq map_filter_append none)
    show "parse_blocks (before @ valid # after) []
            = Inr (List.map_filter ?f before @ the (?f valid) # List.map_filter ?f after)"
      if v: "3 \<le> length (block_lines valid)" for valid
    proof -
      obtain r where "?f valid = Some r" using spec_record_long[OF v] by blast
      then show ?thesis by (simp add: parse_blocks_eq map_filter_append)
    qed
  qed
  from 1 2 show ?thesis by blast
qed

theorem short_block_dropped_witness:
  "length (block_lines (ustr ''only a header'')) < 3
   \<and> parse_block (ustr ''only a header'') = Inr None
   \<and> parse_trade_file (ustr ''only a header\<newline>\<newline>A\<newline>B\<newline>C'')
       = Inr [[ustr ''header'' \<mapsto> ustr ''A'', ustr ''Total Cost'' \<mapsto> ustr ''B'',
               ustr ''Quantity + Price'' \<mapsto> ustr ''C'']]
   \<and> parse_blocks [ustr ''X\<newline>Y\<newline>Z'', ustr ''A\<newline>B\<newline>C''] []
       = Inr [[ustr ''header'' \<mapsto> ustr ''X'', ustr ''Total Cost'' \<mapsto> ustr ''Y'',
               ustr ''Quantity + Price'' \<mapsto> ustr ''Z''],
              [ustr ''header'' \<mapsto> ustr ''A'', ustr ''Total Cost'' \<mapsto> ustr ''B'',
               ustr ''Quantity + Price'' \<mapsto> ustr ''C'']]"
proof -
  have short: "length (block_lines (ustr ''only a header'')) < 3"
    by (simp add: eval_block_short)
  have valid: "3 \<le> length (block_lines (ustr ''X\<newline>Y\<newline>Z''))"
    by (simp add: eval_block_xyz)
  from short_block_dropped[OF short]
  have none: "parse_block (ustr ''only a header'') = Inr None"
    and "\<exists>rs1 rs2.
           parse_blocks [] [] = Inr rs1 \<and> parse_blocks [ustr ''A\<newline>B\<newline>C''] [] = Inr rs2
           \<and> parse_blocks ([] @ ustr ''only a header'' # [ustr ''A\<newline>B\<newline>C'']) [] = Inr (rs1 @ rs2)
           \<and> (\<forall>D. trade_blocks (universal_newlines D)
                        = [] @ ustr ''only a header'' # [ustr ''A\<newline>B\<newline>C'']
                   \<longrightarrow> parse_trade_file D = Inr (rs1 @ rs2))
           \<and> (\<forall>valid. 3 \<le> length (block_lines valid)
                   \<longrightarrow> (\<exists>r. parse_blocks ([] @ valid # [ustr ''A\<newline>B\<newline>C'']) []
                              = Inr (rs1 @ r # rs2)))"
    by blast+
  then obtain rs1 rs2 where
    a: "parse_blocks [] [] = Inr rs1"
    and b: "parse_blocks [ustr ''A\<newline>B\<newline>C''] [] = Inr rs2"
    and d: "\<And>D. trade_blocks (universal_newlines D)
                        = [] @ ustr ''only a header'' # [ustr ''A\<newline>B\<newline>C'']
                   \<Longrightarrow> parse_trade_file D = Inr (rs1 @ rs2)"
    and v: "\<And>valid. 3 \<le> length (block_lines valid)
                   \<Longrightarrow> \<exists>r. parse_blocks ([] @ valid # [ustr ''A\<newline>B\<newline>C'']) []
                              = Inr (rs1 @ r # rs2)"
    by blast
  have rs1: "rs1 = []" using a by simp
  have rs2: "rs2 = [[ustr ''header'' \<mapsto> ustr ''A'', ustr ''Total Cost'' \<mapsto> ustr ''B'',
               ustr ''Quantity + Price'' \<mapsto> ustr ''C'']]"
    using b by (simp add: parse_block_eq eval_block_abc spec_record_three)
  have doc: "parse_trade_file (ustr ''only a header\<newline>\<newline>A\<newline>B\<newline>C'') = Inr (rs1 @ rs2)"
    by (rule d) (simp add: eval_blocks_doc)
  obtain r where r: "parse_blocks ([] @ ustr ''X\<newline>Y\<newline>Z'' # [ustr ''A\<newline>B\<newline>C'']) []
                       = Inr (rs1 @ r # rs2)"
    using v[OF valid] by blast
  then have "r = [ustr ''header'' \<mapsto> ustr ''X'', ustr ''Total Cost'' \<mapsto> ustr ''Y'',
               ustr ''Quantity + Price'' \<mapsto> ustr ''Z'']"
    by (simp add: parse_block_eq eval_block_abc eval_block_xyz spec_record_three rs1)
  with short none doc r rs1 rs2 show ?thesis by simp
qed

subsection \<open>C4: labels out of the declared order\<close>

text \<open>
  Claim C4, as the code has it. Let \<open>labels ! j\<close> be declared before \<open>labels ! k\<close>.
  When the scan for \<open>labels ! j\<close> starts at the index \<open>idx\<close> and the first line equal
  to it from there on is followed by a line \<open>v\<close>, the record has \<open>v\<close> for
  \<open>labels ! j\<close>; and when \<open>labels ! k\<close> does not occur after \<open>v\<close>, the record has no
  value for \<open>labels ! k\<close>, wherever it occurs before: the cursor has passed it. With
  the remaining lines \<open>Status\<close>, \<open>Filled\<close>, \<open>Type\<close>, \<open>Credit\<close> the record has
  \<open>Credit\<close> for \<open>Type\<close> and no value for \<open>Status\<close>.
\<close>

theorem out_of_order_label_missed:
  assumes "block_lines block = header # total_cost # quantity_price # remaining"
    and "j < k" and "k < length labels"
    and "scan_labels (block_lines block) (take j labels)
           (3, [ustr ''header'' \<mapsto> header, ustr ''Total Cost'' \<mapsto> total_cost,
                ustr ''Quantity + Price'' \<mapsto> quantity_price])
         = Inr (idx, parsed)"
    and "drop idx (block_lines block) = before @ labels ! j # v # after"
    and "labels ! j \<notin> set before"
    and "labels ! k \<notin> set after"
  shows "\<exists>record. parse_block block = Inr (Some record)
           \<and> record (labels ! j) = Some v \<and> record (labels ! k) = None"
proof -
  have jl: "j < length labels" using assms(2,3) by simp
  have cj: "fst (spec_scan (take j labels) (remaining, Map.empty))
              = before @ labels ! j # v # after"
    using scan_labels_cursor[OF assms(4)] assms(1,5) by simp
  have dj: "dropWhile (\<lambda>line. line \<noteq> labels ! j) (before @ labels ! j # v # after)
              = labels ! j # v # after"
    using assms(6) by (induction before) auto
  from record_lookup[OF assms(1) jl] obtain r where
    p: "parse_block block = Inr (Some r)" and rj: "r (labels ! j) = Some v"
    unfolding cj dj by auto
  from record_lookup[OF assms(1,3)] p have rk: "r (labels ! k) =
             (case dropWhile (\<lambda>line. line \<noteq> labels ! k)
                     (fst (spec_scan (take k labels) (remaining, Map.empty))) of
                x # v # after \<Rightarrow> Some v
              | _ \<Rightarrow> None)"
    by auto
  have tk: "take k labels = take j labels @ labels ! j # take (k - Suc j) (drop (Suc j) labels)"
  proof -
    have "take (j + (k - j)) labels = take j labels @ take (k - j) (drop j labels)"
      by (rule take_add)
    moreover have "j + (k - j) = k" using assms(2) by simp
    moreover have "drop j labels = labels ! j # drop (Suc j) labels"
      using jl by (simp add: Cons_nth_drop_Suc)
    moreover have "take (k - j) (labels ! j # drop (Suc j) labels)
                 = labels ! j # take (k - Suc j) (drop (Suc j) labels)"
      using assms(2) by (simp add: take_Cons')
    ultimately show ?thesis by simp
  qed
  obtain c1 f1 where s1: "spec_scan (take j labels) (remaining, Map.empty) = (c1, f1)"
    by (cases "spec_scan (take j labels) (remaining, Map.empty)")
  with cj have c1: "c1 = before @ labels ! j # v # after" by simp
  have st: "spec_step (labels ! j) (c1, f1) = (after, f1(labels ! j \<mapsto> v))"
    by (simp add: spec_step_def c1 dj)
  have "fst (spec_scan (take k labels) (remaining, Map.empty))
          = fst (spec_scan (take (k - Suc j) (drop (Suc j) labels)) (after, f1(labels ! j \<mapsto> v)))"
    by (subst tk) (simp add: spec_scan_append s1 st)
  then have "set (fst (spec_scan (take k labels) (remaining, Map.empty))) \<subseteq> set after"
    using set_fst_spec_scan by metis
  with assms(7) have "labels ! k \<notin> set (fst (spec_scan (take k labels) (remaining, Map.empty)))"
    by blast
  then have "dropWhile (\<lambda>line. line \<noteq> labels ! k)
               (fst (spec_scan (take k labels) (remaining, Map.empty))) = []"
    by (auto simp: dropWhile_eq_Nil_conv)
  with rk have "r (labels ! k) = None" by simp
  with p rj show ?thesis by blast
qed

theorem out_of_order_label_missed_witness:
  "block_lines (ustr ''H\<newline>C\<newline>Q\<newline>Status\<newline>Filled\<newline>Type\<newline>Credit'')
     = [ustr ''H'', ustr ''C'', ustr ''Q'', ustr ''Status'', ustr ''Filled'',
        ustr ''Type'', ustr ''Credit'']
   \<and> labels ! 0 = ustr ''Type'' \<and> labels ! 6 = ustr ''Status''
   \<and> (\<exists>record.
         parse_block (ustr ''H\<newline>C\<newline>Q\<newline>Status\<newline>Filled\<newline>Type\<newline>Credit'')
           = Inr (Some record)
         \<and> record (ustr ''Type'') = Some (ustr ''Credit'')
         \<and> record (ustr ''Status'') = None)"
proof -
  let ?B = "ustr ''H\<newline>C\<newline>Q\<newline>Status\<newline>Filled\<newline>Type\<newline>Credit''"
  let ?p = "[ustr ''header'' \<mapsto> ustr ''H'', ustr ''Total Cost'' \<mapsto> ustr ''C'',
             ustr ''Quantity + Price'' \<mapsto> ustr ''Q'']"
  have l0: "labels ! 0 = ustr ''Type''" and l6: "labels ! 6 = ustr ''Status''"
    by (simp_all add: labels_def)
  have a1: "block_lines ?B = ustr ''H'' # ustr ''C'' # ustr ''Q''
              # [ustr ''Status'', ustr ''Filled'', ustr ''Type'', ustr ''Credit'']"
    by (simp add: eval_block_swapped)
  have a2: "(0::nat) < 6" by simp
  have a3: "6 < length labels" by (simp add: labels_def)
  have a4: "scan_labels (block_lines ?B) (take 0 labels) (3, ?p) = Inr (3, ?p)" by simp
  have a5: "drop 3 (block_lines ?B)
              = [ustr ''Status'', ustr ''Filled''] @ labels ! 0 # ustr ''Credit'' # []"
    by (simp add: eval_block_swapped l0)
  have a6: "labels ! 0 \<notin> set [ustr ''Status'', ustr ''Filled'']"
    by (simp add: l0 ustr_def)
  have a7: "labels ! 6 \<notin> set []" by simp
  from out_of_order_label_missed[OF a1 a2 a3 a4 a5 a6 a7] eval_block_swapped l0 l6
  show ?thesis by simp
qed

text \<open>
  The earlier declared label is not found in every block. Below \<open>Type\<close> stands after
  \<open>Status\<close> and is the last line: no line follows it, and it gets no value.
\<close>

theorem out_of_order_label_counterexample:
  "block_lines (ustr ''H\<newline>C\<newline>Q\<newline>Status\<newline>Filled\<newline>Type'')
     = [ustr ''H'', ustr ''C'', ustr ''Q'', ustr ''Status'', ustr ''Filled'', ustr ''Type'']
   \<and> labels ! 0 = ustr ''Type'' \<and> labels ! 6 = ustr ''Status''
   \<and> parse_block (ustr ''H\<newline>C\<newline>Q\<newline>Status\<newline>Filled\<newline>Type'')
       = Inr (Some [ustr ''header'' \<mapsto> ustr ''H'', ustr ''Total Cost'' \<mapsto> ustr ''C'',
                    ustr ''Quantity + Price'' \<mapsto> ustr ''Q''])
   \<and> [ustr ''header'' \<mapsto> ustr ''H'', ustr ''Total Cost'' \<mapsto> ustr ''C'',
       ustr ''Quantity + Price'' \<mapsto> ustr ''Q''] (ustr ''Type'') = None"
proof -
  have b: "block_lines (ustr ''H\<newline>C\<newline>Q\<newline>Status\<newline>Filled\<newline>Type'')
     = [ustr ''H'', ustr ''C'', ustr ''Q'', ustr ''Status'', ustr ''Filled'', ustr ''Type'']"
    by (simp add: text_eval)
  have e: "spec_record [ustr ''H'', ustr ''C'', ustr ''Q'', ustr ''Status'', ustr ''Filled'',
                        ustr ''Type'']
             = Some [ustr ''header'' \<mapsto> ustr ''H'', ustr ''Total Cost'' \<mapsto> ustr ''C'',
                     ustr ''Quantity + Price'' \<mapsto> ustr ''Q'']"
    by (simp add: spec_record_def labels_def spec_step_def ustr_def)
  have l: "labels ! 0 = ustr ''Type''" "labels ! 6 = ustr ''Status''"
    by (simp_all add: labels_def)
  have n: "[ustr ''header'' \<mapsto> ustr ''H'', ustr ''Total Cost'' \<mapsto> ustr ''C'',
            ustr ''Quantity + Price'' \<mapsto> ustr ''Q''] (ustr ''Type'') = None"
    by (simp add: ustr_def)
  show ?thesis
    unfolding parse_block_eq b e using l n by simp
qed

subsection \<open>C5: a label that occurs more than once\<close>

text \<open>
  Claim C5, as the code has it. When the scan for the label \<open>labels ! k\<close> starts at
  the index \<open>idx\<close>, the record has the value \<open>w\<close> for that label exactly when the
  first line equal to the label from \<open>idx\<close> on is followed by the line \<open>w\<close>. No
  other occurrence supplies the value: not a later one, and not one before \<open>idx\<close>.
\<close>

theorem first_occurrence_from_cursor:
  assumes "block_lines block = header # total_cost # quantity_price # remaining"
    and "k < length labels"
    and "scan_labels (block_lines block) (take k labels)
           (3, [ustr ''header'' \<mapsto> header, ustr ''Total Cost'' \<mapsto> total_cost,
                ustr ''Quantity + Price'' \<mapsto> quantity_price])
         = Inr (idx, parsed)"
  shows "\<exists>record. parse_block block = Inr (Some record) \<and>
           (\<forall>w. record (labels ! k) = Some w \<longleftrightarrow>
                 (\<exists>before after.
                    drop idx (block_lines block) = before @ labels ! k # w # after
                    \<and> labels ! k \<notin> set before))"
proof -
  have c: "drop idx (block_lines block) = fst (spec_scan (take k labels) (remaining, Map.empty))"
    using scan_labels_cursor[OF assms(3)] assms(1) by simp
  from record_lookup[OF assms(1,2)] obtain r where
    p: "parse_block block = Inr (Some r)"
    and r: "r (labels ! k) =
             (case dropWhile (\<lambda>line. line \<noteq> labels ! k) (drop idx (block_lines block)) of
                x # v # after \<Rightarrow> Some v
              | _ \<Rightarrow> None)"
    unfolding c by blast
  have "r (labels ! k) = Some w \<longleftrightarrow>
          (\<exists>before after.
             drop idx (block_lines block) = before @ labels ! k # w # after
             \<and> labels ! k \<notin> set before)" for w
    unfolding r case_value_iff by (rule dropWhile_first_occurrence)
  with p show ?thesis by blast
qed

theorem first_occurrence_from_cursor_witness:
  "block_lines (ustr ''H\<newline>C\<newline>Q\<newline>Position effect\<newline>a\<newline>Type\<newline>b\<newline>Position effect\<newline>c'')
     = [ustr ''H'', ustr ''C'', ustr ''Q'', ustr ''Position effect'', ustr ''a'',
        ustr ''Type'', ustr ''b'', ustr ''Position effect'', ustr ''c'']
   \<and> labels ! 1 = ustr ''Position effect''
   \<and> (\<exists>record.
         parse_block (ustr ''H\<newline>C\<newline>Q\<newline>Position effect\<newline>a\<newline>Type\<newline>b\<newline>Position effect\<newline>c'')
           = Inr (Some record)
         \<and> record (ustr ''Position effect'') = Some (ustr ''c''))"
proof -
  let ?B = "ustr ''H\<newline>C\<newline>Q\<newline>Position effect\<newline>a\<newline>Type\<newline>b\<newline>Position effect\<newline>c''"
  let ?p = "[ustr ''header'' \<mapsto> ustr ''H'', ustr ''Total Cost'' \<mapsto> ustr ''C'',
             ustr ''Quantity + Price'' \<mapsto> ustr ''Q'']"
  have l1: "labels ! 1 = ustr ''Position effect''" by (simp add: labels_def)
  have a1: "block_lines ?B = ustr ''H'' # ustr ''C'' # ustr ''Q''
              # [ustr ''Position effect'', ustr ''a'', ustr ''Type'', ustr ''b'',
                 ustr ''Position effect'', ustr ''c'']"
    by (simp add: eval_block_dup)
  have a2: "1 < length labels" by (simp add: labels_def)
  have a3: "scan_labels (block_lines ?B) (take 1 labels) (3, ?p)
              = Inr (7, ?p(ustr ''Type'' \<mapsto> ustr ''b''))"
    unfolding eval_block_dup
    by (simp add: labels_def label_step_def advance_eq getitem_def ustr_def)
  from first_occurrence_from_cursor[OF a1 a2 a3] obtain r where
    p: "parse_block ?B = Inr (Some r)"
    and r: "\<And>w. r (labels ! 1) = Some w \<longleftrightarrow>
                 (\<exists>before after.
                    drop 7 (block_lines ?B) = before @ labels ! 1 # w # after
                    \<and> labels ! 1 \<notin> set before)"
    by blast
  have "drop 7 (block_lines ?B) = [] @ labels ! 1 # ustr ''c'' # [] \<and> labels ! 1 \<notin> set []"
    unfolding l1 eval_block_dup by simp
  then have "r (labels ! 1) = Some (ustr ''c'')" unfolding r by blast
  with p l1 eval_block_dup show ?thesis by auto
qed

text \<open>
  The occurrence that supplies the value need not be the first one in the block:
  below, the cursor passes the first \<open>Position effect\<close> while it scans for \<open>Type\<close>,
  and the value is the line after the second.
\<close>

theorem first_occurrence_counterexample:
  "block_lines (ustr ''H\<newline>C\<newline>Q\<newline>Position effect\<newline>a\<newline>Type\<newline>b\<newline>Position effect\<newline>c'')
     = [ustr ''H'', ustr ''C'', ustr ''Q'', ustr ''Position effect'', ustr ''a'',
        ustr ''Type'', ustr ''b'', ustr ''Position effect'', ustr ''c'']
   \<and> parse_block (ustr ''H\<newline>C\<newline>Q\<newline>Position effect\<newline>a\<newline>Type\<newline>b\<newline>Position effect\<newline>c'')
       = Inr (Some [ustr ''header'' \<mapsto> ustr ''H'', ustr ''Total Cost'' \<mapsto> ustr ''C'',
                    ustr ''Quantity + Price'' \<mapsto> ustr ''Q'',
                    ustr ''Type'' \<mapsto> ustr ''b'',
                    ustr ''Position effect'' \<mapsto> ustr ''c''])"
proof -
  have e: "spec_record [ustr ''H'', ustr ''C'', ustr ''Q'', ustr ''Position effect'', ustr ''a'',
                        ustr ''Type'', ustr ''b'', ustr ''Position effect'', ustr ''c'']
             = Some [ustr ''header'' \<mapsto> ustr ''H'', ustr ''Total Cost'' \<mapsto> ustr ''C'',
                     ustr ''Quantity + Price'' \<mapsto> ustr ''Q'',
                     ustr ''Type'' \<mapsto> ustr ''b'',
                     ustr ''Position effect'' \<mapsto> ustr ''c'']"
    by (simp add: spec_record_def labels_def spec_step_def ustr_def)
  show ?thesis
    unfolding parse_block_eq eval_block_dup e by simp
qed

subsection \<open>C6: a block of three lines\<close>

text \<open>
  Claim C6. The document of the single block with the lines
  \<open>Buy SPY $645 Call 7/31\<close>, \<open>$94.00\<close> and \<open>2 contracts at $0.47\<close> parses to exactly
  one record, with these three lines as header, total cost and quantity and price.
  In general a block with exactly three lines after filtering yields a record whose
  keys are the three positional keys only: none of the twelve labels is a key.
\<close>

theorem three_line_block:
  "parse_trade_file (ustr ''Buy SPY $645 Call 7/31\<newline>$94.00\<newline>2 contracts at $0.47'')
     = Inr [[ustr ''header'' \<mapsto> ustr ''Buy SPY $645 Call 7/31'',
             ustr ''Total Cost'' \<mapsto> ustr ''$94.00'',
             ustr ''Quantity + Price'' \<mapsto> ustr ''2 contracts at $0.47'']]
   \<and> (\<forall>block h t q. block_lines block = [h, t, q] \<longrightarrow>
         (\<exists>record. parse_block block = Inr (Some record)
            \<and> record = [ustr ''header'' \<mapsto> h, ustr ''Total Cost'' \<mapsto> t,
                        ustr ''Quantity + Price'' \<mapsto> q]
            \<and> dom record = {ustr ''header'', ustr ''Total Cost'', ustr ''Quantity + Price''}
            \<and> (\<forall>label. label \<in> set labels \<longrightarrow> record label = None)))"
proof (intro conjI allI impI)
  show "parse_trade_file (ustr ''Buy SPY $645 Call 7/31\<newline>$94.00\<newline>2 contracts at $0.47'')
     = Inr [[ustr ''header'' \<mapsto> ustr ''Buy SPY $645 Call 7/31'',
             ustr ''Total Cost'' \<mapsto> ustr ''$94.00'',
             ustr ''Quantity + Price'' \<mapsto> ustr ''2 contracts at $0.47'']]"
    by (simp add: parse_trade_file_def parse_trade_text_eq eval_blocks_spy eval_block_spy
        spec_record_three)
next
  fix block h t q
  assume l: "block_lines block = [h, t, q]"
  let ?r = "[ustr ''header'' \<mapsto> h, ustr ''Total Cost'' \<mapsto> t, ustr ''Quantity + Price'' \<mapsto> q]"
  have "parse_block block = Inr (Some ?r)"
    by (simp add: parse_block_eq l spec_record_three)
  moreover have "dom ?r = {ustr ''header'', ustr ''Total Cost'', ustr ''Quantity + Price''}"
    by auto
  moreover have "\<forall>label. label \<in> set labels \<longrightarrow> ?r label = None"
    by (intro allI impI) (rule positional_not_label)
  ultimately show "\<exists>record. parse_block block = Inr (Some record)
            \<and> record = ?r
            \<and> dom record = {ustr ''header'', ustr ''Total Cost'', ustr ''Quantity + Price''}
            \<and> (\<forall>label. label \<in> set labels \<longrightarrow> record label = None)"
    by blast
qed

theorem three_line_block_witness:
  "block_lines (ustr ''Buy SPY $645 Call 7/31\<newline>$94.00\<newline>2 contracts at $0.47'')
     = [ustr ''Buy SPY $645 Call 7/31'', ustr ''$94.00'', ustr ''2 contracts at $0.47'']
   \<and> parse_block (ustr ''Buy SPY $645 Call 7/31\<newline>$94.00\<newline>2 contracts at $0.47'')
     = Inr (Some [ustr ''header'' \<mapsto> ustr ''Buy SPY $645 Call 7/31'',
                  ustr ''Total Cost'' \<mapsto> ustr ''$94.00'',
                  ustr ''Quantity + Price'' \<mapsto> ustr ''2 contracts at $0.47''])
   \<and> [ustr ''header'' \<mapsto> ustr ''Buy SPY $645 Call 7/31'',
       ustr ''Total Cost'' \<mapsto> ustr ''$94.00'',
       ustr ''Quantity + Price'' \<mapsto> ustr ''2 contracts at $0.47''] (ustr ''Type'') = None
   \<and> ustr ''Type'' \<in> set labels"
proof -
  have ty: "ustr ''Type'' \<in> set labels" by (simp add: labels_def)
  from three_line_block eval_block_spy
  obtain r where
    "parse_block (ustr ''Buy SPY $645 Call 7/31\<newline>$94.00\<newline>2 contracts at $0.47'')
       = Inr (Some r)"
    "r = [ustr ''header'' \<mapsto> ustr ''Buy SPY $645 Call 7/31'',
               ustr ''Total Cost'' \<mapsto> ustr ''$94.00'',
               ustr ''Quantity + Price'' \<mapsto> ustr ''2 contracts at $0.47'']"
    "\<forall>label. label \<in> set labels \<longrightarrow> r label = None"
    by blast
  with ty eval_block_spy show ?thesis by blast
qed

subsection \<open>C7: lines with the glyph\<close>

text \<open>
  Claim C7. Let \<open>x\<close> be a line (a text without any character at which
  \<open>splitlines\<close> breaks) that contains the glyph. Inserting \<open>x\<close> as a line of its own
  at the start of a block or after any line break of it, or appending it as a new
  last line, does not change what the block parses to.
\<close>

theorem bullet_line_ignored:
  assumes "bullet \<in> set x" and "\<forall>c\<in>set x. \<not> islinebreak c"
  shows "(\<forall>pre post. pre = [] \<or> islinebreak (last pre) \<longrightarrow>
            parse_block (pre @ x @ LF # post) = parse_block (pre @ post))
       \<and> (\<forall>pre. parse_block (pre @ LF # x) = parse_block pre)"
proof (intro conjI allI impI)
  fix pre post :: pystr
  assume "pre = [] \<or> islinebreak (last pre)"
  with assms have "block_lines (pre @ x @ LF # post) = block_lines (pre @ post)"
    by (rule block_lines_insert_bullet_line)
  then show "parse_block (pre @ x @ LF # post) = parse_block (pre @ post)"
    by (rule parse_block_cong)
next
  fix pre :: pystr
  from assms have "block_lines (pre @ LF # x) = block_lines pre"
    by (rule block_lines_append_bullet_line)
  then show "parse_block (pre @ LF # x) = parse_block pre"
    by (rule parse_block_cong)
qed

theorem bullet_line_ignored_witness:
  "bullet \<in> set (ustr ''Individual '' @ bullet # ustr '' Jun 2'')
   \<and> parse_block (ustr ''A\<newline>'' @ (ustr ''Individual '' @ bullet # ustr '' Jun 2'') @ LF # ustr ''B\<newline>C'')
       = Inr (Some [ustr ''header'' \<mapsto> ustr ''A'', ustr ''Total Cost'' \<mapsto> ustr ''B'',
                    ustr ''Quantity + Price'' \<mapsto> ustr ''C''])
   \<and> parse_block (ustr ''A\<newline>B\<newline>C'' @ LF # (ustr ''Individual '' @ bullet # ustr '' Jun 2''))
       = Inr (Some [ustr ''header'' \<mapsto> ustr ''A'', ustr ''Total Cost'' \<mapsto> ustr ''B'',
                    ustr ''Quantity + Price'' \<mapsto> ustr ''C''])"
proof -
  let ?x = "ustr ''Individual '' @ bullet # ustr '' Jun 2''"
  have b: "bullet \<in> set ?x" by simp
  have l: "\<forall>c\<in>set ?x. \<not> islinebreak c"
    by (simp add: ustr_def islinebreak_def bullet_def)
  have p: "ustr ''A\<newline>'' = [] \<or> islinebreak (last (ustr ''A\<newline>''))"
    by (simp add: ustr_def islinebreak_def)
  have abc: "ustr ''A\<newline>'' @ ustr ''B\<newline>C'' = ustr ''A\<newline>B\<newline>C''"
    by (simp add: ustr_def)
  have v: "parse_block (ustr ''A\<newline>B\<newline>C'')
       = Inr (Some [ustr ''header'' \<mapsto> ustr ''A'', ustr ''Total Cost'' \<mapsto> ustr ''B'',
                    ustr ''Quantity + Price'' \<mapsto> ustr ''C''])"
    by (simp add: parse_block_eq eval_block_abc spec_record_three)
  from bullet_line_ignored[OF b l] p
  have "parse_block (ustr ''A\<newline>'' @ ?x @ LF # ustr ''B\<newline>C'')
          = parse_block (ustr ''A\<newline>'' @ ustr ''B\<newline>C'')"
    and "parse_block (ustr ''A\<newline>B\<newline>C'' @ LF # ?x) = parse_block (ustr ''A\<newline>B\<newline>C'')"
    by blast+
  with abc v b show ?thesis by simp
qed

subsection \<open>C8: all rows, the most recent first\<close>

text \<open>
  Claim C8. Dictionaries that bind every column are inserted, one after the other,
  into the journal that \<open>init_db\<close> creates. Every insert succeeds, and
  \<open>fetch_all_trades\<close> then returns one row for each of them: the rows, without their
  ids, are the inserted dictionaries as a multiset, the ids are 1 to the number of
  inserts, and the rows stand in descending order of \<open>saved_at\<close>. After two inserts
  with different time stamps exactly these two rows are returned, the one with the
  greater time stamp first.
\<close>

theorem fetch_all_after_inserts:
  assumes "\<forall>record\<in>set records. set columns \<subseteq> dom record"
  shows "\<exists>db fetched.
     insert_all (init_db None) records = Inr db \<and> fetch_all_trades db = Inr fetched
     \<and> mset (map (\<lambda>d. d |` set columns) fetched)
         = mset (map (\<lambda>record. (map_option Text \<circ> record) |` set columns) records)
     \<and> mset (map (\<lambda>d. d (ustr ''id'')) fetched)
         = mset (map (\<lambda>i. Some (Integer (Suc i))) [0..<length records])
     \<and> sorted_wrt (\<lambda>d e. sql_le (saved_at e) (saved_at d)) fetched
     \<and> (\<forall>a b sa sb.
           records = [a, b] \<and> a (ustr ''saved_at'') = Some sa \<and> b (ustr ''saved_at'') = Some sb
           \<and> sa \<noteq> sb
           \<longrightarrow> map (\<lambda>d. d |` set columns) fetched
                 = (if sa < sb
                    then [(map_option Text \<circ> b) |` set columns, (map_option Text \<circ> a) |` set columns]
                    else [(map_option Text \<circ> a) |` set columns, (map_option Text \<circ> b) |` set columns]))"
proof -
  define table where
    "table = map (\<lambda>(i, record). stored_row (Suc (0 + i)) record) (enumerate 0 records)"
  define fetched where "fetched = map row_dict (order_by_saved_at_desc table)"
  have ins: "insert_all (init_db None) records = Inr (Some table)"
    using insert_all_complete[OF assms, of "[]"] by (simp add: init_db_def table_def)
  have fet: "fetch_all_trades (Some table) = Inr fetched"
    by (simp add: fetch_all_stored fetched_def)
  have cols: "mset (map (\<lambda>d. d |` set columns) fetched)
         = mset (map (\<lambda>record. (map_option Text \<circ> record) |` set columns) records)"
    unfolding fetched_def mset_map_order_by table_def stored_rows_columns[OF assms] ..
  have ids: "mset (map (\<lambda>d. d (ustr ''id'')) fetched)
         = mset (map (\<lambda>i. Some (Integer (Suc i))) [0..<length records])"
    unfolding fetched_def mset_map_order_by table_def stored_rows_ids by simp
  have srt: "sorted_wrt (\<lambda>d e. sql_le (saved_at e) (saved_at d)) fetched"
    unfolding fetched_def sorted_wrt_map by (rule sorted_order_by_saved_at_desc)
  have two: "map (\<lambda>d. d |` set columns) fetched
                 = (if sa < sb
                    then [(map_option Text \<circ> b) |` set columns, (map_option Text \<circ> a) |` set columns]
                    else [(map_option Text \<circ> a) |` set columns, (map_option Text \<circ> b) |` set columns])"
    if r: "records = [a, b]" and sa: "a (ustr ''saved_at'') = Some sa"
      and sb: "b (ustr ''saved_at'') = Some sb" and ne: "sa \<noteq> sb" for a b sa sb
  proof -
    have ca: "set columns \<subseteq> dom a" and cb: "set columns \<subseteq> dom b" using assms r by simp_all
    have t: "table = [stored_row (Suc 0) a, stored_row (Suc (Suc 0)) b]"
      by (simp add: table_def r enumerate_simps)
    have ka: "saved_at (row_dict (stored_row i a)) = Text sa" for i
      using sa by (rule saved_at_stored_row)
    have kb: "saved_at (row_dict (stored_row i b)) = Text sb" for i
      using sb by (rule saved_at_stored_row)
    have "order_by_saved_at_desc table
            = (if sa < sb then [stored_row (Suc (Suc 0)) b, stored_row (Suc 0) a]
               else [stored_row (Suc 0) a, stored_row (Suc (Suc 0)) b])"
      using ne by (auto simp: t ka kb)
    then show ?thesis
      by (simp add: fetched_def row_dict_stored_row_columns[OF ca] row_dict_stored_row_columns[OF cb])
  qed
  from ins fet cols ids srt two show ?thesis by blast
qed


theorem fetch_all_after_inserts_witness:
  "\<exists>db fetched.
     insert_all (init_db None)
       [build_record Map.empty [] Map.empty [] [] (ustr ''2025-06-02T10:00:00''),
        build_record Map.empty [] Map.empty [] [] (ustr ''2025-06-03T09:30:00.123456'')]
       = Inr db
     \<and> fetch_all_trades db = Inr fetched
     \<and> map (\<lambda>d. (d |` set columns) (ustr ''saved_at'')) fetched
         = [Some (Text (ustr ''2025-06-03T09:30:00.123456'')),
            Some (Text (ustr ''2025-06-02T10:00:00''))]"
proof -
  let ?a = "build_record Map.empty [] Map.empty [] [] (ustr ''2025-06-02T10:00:00'')"
  let ?b = "build_record Map.empty [] Map.empty [] [] (ustr ''2025-06-03T09:30:00.123456'')"
  have h: "\<forall>record\<in>set [?a, ?b]. set columns \<subseteq> dom record"
    by (simp add: dom_build_record)
  have lt: "ustr ''2025-06-02T10:00:00'' < ustr ''2025-06-03T09:30:00.123456''"
    by (simp add: ustr_def)
  from fetch_all_after_inserts[OF h] obtain db fetched where
    i: "insert_all (init_db None) [?a, ?b] = Inr db"
    and f: "fetch_all_trades db = Inr fetched"
    and two: "\<And>a b sa sb.
           [?a, ?b] = [a, b] \<and> a (ustr ''saved_at'') = Some sa \<and> b (ustr ''saved_at'') = Some sb
           \<and> sa \<noteq> sb
           \<Longrightarrow> map (\<lambda>d. d |` set columns) fetched
                 = (if sa < sb
                    then [(map_option Text \<circ> b) |` set columns, (map_option Text \<circ> a) |` set columns]
                    else [(map_option Text \<circ> a) |` set columns, (map_option Text \<circ> b) |` set columns])"
    by blast
  have "map (\<lambda>d. d |` set columns) fetched
          = [(map_option Text \<circ> ?b) |` set columns, (map_option Text \<circ> ?a) |` set columns]"
    using two[of ?a ?b "ustr ''2025-06-02T10:00:00''" "ustr ''2025-06-03T09:30:00.123456''"] lt
    by (simp add: build_record_saved_at)
  then have "map (\<lambda>f. f (ustr ''saved_at'')) (map (\<lambda>d. d |` set columns) fetched)
          = [Some (Text (ustr ''2025-06-03T09:30:00.123456'')),
             Some (Text (ustr ''2025-06-02T10:00:00''))]"
    by (simp add: saved_at_column build_record_saved_at)
  then have res: "map (\<lambda>d. (d |` set columns) (ustr ''saved_at'')) fetched
         = [Some (Text (ustr ''2025-06-03T09:30:00.123456'')),
            Some (Text (ustr ''2025-06-02T10:00:00''))]"
    by (simp add: comp_def)
  show ?thesis
    by (rule exI[of _ db], rule exI[of _ fetched]) (simp only: i f res simp_thms)
qed

subsection \<open>C9: missing keys of a JSON trade\<close>

text \<open>
  Claim C9, as the code has it. For a trade object of an uploaded JSON file the
  warning is shown exactly when an expected key is missing, and names the missing
  keys. The dictionary built for saving binds every column, so saving it raises no
  error. Each of the fifteen fields (their keys in the object are the expected keys)
  gets the value that the session state holds for its widget when it holds one;
  otherwise it gets the value of its key in the object, and the empty string when
  the key is missing.
\<close>

theorem missing_keys_tolerated:
  "missing_warning trade_data
     = (if expected_keys \<subseteq> dom trade_data then None else Some (expected_keys - dom trade_data))
   \<and> dom (build_record session_state prefix trade_data suggestion comment now) = set columns
   \<and> (\<exists>db. save_trade (Some table) session_state prefix trade_data suggestion comment now = Inr db)
   \<and> expected_keys = set (map (\<lambda>(column, key_start, json_key). json_key) fields)
   \<and> (\<forall>column key_start json_key.
         (column, key_start, json_key) \<in> set fields \<longrightarrow>
         build_record session_state prefix trade_data suggestion comment now column =
           Some (case session_state (key_start @ prefix) of
                   Some edited \<Rightarrow> edited
                 | None \<Rightarrow> (case trade_data json_key of Some v \<Rightarrow> v | None \<Rightarrow> [])))"
proof (intro conjI allI impI)
  show "missing_warning trade_data
     = (if expected_keys \<subseteq> dom trade_data then None else Some (expected_keys - dom trade_data))"
    by (auto simp: missing_warning_def Let_def)
  show "dom (build_record session_state prefix trade_data suggestion comment now) = set columns"
    by (rule dom_build_record)
  show "\<exists>db. save_trade (Some table) session_state prefix trade_data suggestion comment now = Inr db"
    by (simp add: save_trade_succeeds)
  show "expected_keys = set (map (\<lambda>(column, key_start, json_key). json_key) fields)"
    by (rule expected_keys_fields)
  show "build_record session_state prefix trade_data suggestion comment now column =
           Some (case session_state (key_start @ prefix) of
                   Some edited \<Rightarrow> edited
                 | None \<Rightarrow> (case trade_data json_key of Some v \<Rightarrow> v | None \<Rightarrow> []))"
    if "(column, key_start, json_key) \<in> set fields" for column key_start json_key
    using that by (rule build_record_field)
qed

theorem missing_keys_tolerated_witness:
  "missing_warning [ustr ''header'' \<mapsto> ustr ''Buy SPY''] = Some (expected_keys - {ustr ''header''})
   \<and> build_record Map.empty (ustr ''p'') [ustr ''header'' \<mapsto> ustr ''Buy SPY''] [] [] (ustr ''now'')
        (ustr ''header'') = Some (ustr ''Buy SPY'')
   \<and> build_record Map.empty (ustr ''p'') [ustr ''header'' \<mapsto> ustr ''Buy SPY''] [] [] (ustr ''now'')
        (ustr ''type'') = Some []"
proof -
  let ?td = "[ustr ''header'' \<mapsto> ustr ''Buy SPY'']"
  have f1: "(ustr ''header'', ustr ''hdr_'', ustr ''header'') \<in> set fields"
    and f2: "(ustr ''type'', ustr ''type_'', ustr ''Type'') \<in> set fields"
    by (simp_all add: fields_def)
  have n: "\<not> expected_keys \<subseteq> dom ?td"
    by (simp add: expected_keys_def ustr_def)
  have t: "?td (ustr ''Type'') = None" by (simp add: ustr_def)
  from missing_keys_tolerated[of ?td Map.empty "ustr ''p''" "[]" "[]" "ustr ''now''" "[]"]
  have w: "missing_warning ?td
     = (if expected_keys \<subseteq> dom ?td then None else Some (expected_keys - dom ?td))"
    and b: "\<And>column key_start json_key.
         (column, key_start, json_key) \<in> set fields \<Longrightarrow>
         build_record Map.empty (ustr ''p'') ?td [] [] (ustr ''now'') column =
           Some (case Map.empty (key_start @ ustr ''p'') of
                   Some edited \<Rightarrow> edited
                 | None \<Rightarrow> (case ?td json_key of Some v \<Rightarrow> v | None \<Rightarrow> []))"
    by blast+
  from w n have "missing_warning ?td = Some (expected_keys - {ustr ''header''})" by simp
  moreover from b[OF f1] have "build_record Map.empty (ustr ''p'') ?td [] [] (ustr ''now'')
        (ustr ''header'') = Some (ustr ''Buy SPY'')" by simp
  moreover from b[OF f2] t have "build_record Map.empty (ustr ''p'') ?td [] [] (ustr ''now'')
        (ustr ''type'') = Some []" by simp
  ultimately show ?thesis by blast
qed

text \<open>
  A value that the session state holds for a widget (an edit of the user) takes
  precedence: a present field then does not keep its value from the object, and a
  missing field is not saved as the empty string.
\<close>

theorem edited_value_counterexample:
  "[ustr ''header'' \<mapsto> ustr ''original''] (ustr ''header'') = Some (ustr ''original'')
   \<and> build_record [ustr ''hdr_p'' \<mapsto> ustr ''edited''] (ustr ''p'')
        [ustr ''header'' \<mapsto> ustr ''original''] [] [] (ustr ''now'') (ustr ''header'')
      = Some (ustr ''edited'')
   \<and> [ustr ''header'' \<mapsto> ustr ''original''] (ustr ''Type'') = None
   \<and> build_record [ustr ''type_p'' \<mapsto> ustr ''typed in''] (ustr ''p'')
        [ustr ''header'' \<mapsto> ustr ''original''] [] [] (ustr ''now'') (ustr ''type'')
      = Some (ustr ''typed in'')"
  by (simp add: build_record_def dict_get_def ustr_def)

subsection \<open>C10: the records of a document\<close>

text \<open>
  Claim C10. Parsing a document raises no error, and every record it yields has the
  three positional keys and otherwise only labels as keys; there is a block of the
  document such that every value of the record is a stripped line of that block
  that is not empty, is unchanged by stripping and does not contain the glyph.
  A document of whitespace only (the empty one too) yields no record.
\<close>

theorem record_invariant:
  "\<exists>records. parse_trade_file D = Inr records
     \<and> (\<forall>record\<in>set records.
           {ustr ''header'', ustr ''Total Cost'', ustr ''Quantity + Price''} \<subseteq> dom record
           \<and> dom record \<subseteq> {ustr ''header'', ustr ''Total Cost'', ustr ''Quantity + Price''}
                             \<union> set labels
           \<and> (\<exists>block\<in>set (trade_blocks (universal_newlines D)).
                 \<forall>v\<in>ran record.
                   v \<noteq> [] \<and> strip v = v \<and> bullet \<notin> set v
                   \<and> v \<in> set (map strip (splitlines block))))
     \<and> ((\<forall>c\<in>set D. isspace c) \<longrightarrow> records = [])"
proof -
  let ?f = "\<lambda>b. spec_record (block_lines b)"
  let ?bs = "trade_blocks (universal_newlines D)"
  have p: "parse_trade_file D = Inr (List.map_filter ?f ?bs)"
    by (simp add: parse_trade_file_def parse_trade_text_eq)
  have inv: "{ustr ''header'', ustr ''Total Cost'', ustr ''Quantity + Price''} \<subseteq> dom r
           \<and> dom r \<subseteq> {ustr ''header'', ustr ''Total Cost'', ustr ''Quantity + Price''}
                             \<union> set labels
           \<and> (\<exists>block\<in>set ?bs.
                 \<forall>v\<in>ran r.
                   v \<noteq> [] \<and> strip v = v \<and> bullet \<notin> set v
                   \<and> v \<in> set (map strip (splitlines block)))"
    if "r \<in> set (List.map_filter ?f ?bs)" for r
  proof -
    from that obtain b where b: "b \<in> set ?bs" "spec_record (block_lines b) = Some r"
      using map_filter_member[of r ?f ?bs] by blast
    from spec_record_invariant[OF b(2)] have
      d: "{ustr ''header'', ustr ''Total Cost'', ustr ''Quantity + Price''} \<subseteq> dom r"
         "dom r \<subseteq> {ustr ''header'', ustr ''Total Cost'', ustr ''Quantity + Price''} \<union> set labels"
      and ran: "ran r \<subseteq> set (block_lines b)"
      by blast+
    have "\<forall>v\<in>ran r. v \<noteq> [] \<and> strip v = v \<and> bullet \<notin> set v
                   \<and> v \<in> set (map strip (splitlines b))"
      using ran block_lines_member[of _ b] by blast
    with b(1) d show ?thesis by blast
  qed
  have blank: "List.map_filter ?f ?bs = []" if "\<forall>c\<in>set D. isspace c"
    using parse_trade_file_blank[OF that] p by simp
  from p inv blank show ?thesis by blast
qed

lemma eval_blank_doc: "\<forall>c\<in>set (ustr '' \<newline>  \<newline>''). isspace c"
  by (simp add: ustr_def isspace_def)

theorem record_invariant_witness:
  "parse_trade_file (ustr ''only a header\<newline>\<newline>A\<newline>B\<newline>C'')
     = Inr [[ustr ''header'' \<mapsto> ustr ''A'', ustr ''Total Cost'' \<mapsto> ustr ''B'',
             ustr ''Quantity + Price'' \<mapsto> ustr ''C'']]
   \<and> dom [ustr ''header'' \<mapsto> ustr ''A'', ustr ''Total Cost'' \<mapsto> ustr ''B'',
           ustr ''Quantity + Price'' \<mapsto> ustr ''C'']
       \<subseteq> {ustr ''header'', ustr ''Total Cost'', ustr ''Quantity + Price''} \<union> set labels
   \<and> parse_trade_file (ustr '' \<newline>  \<newline>'') = Inr []"
proof -
  let ?r = "[ustr ''header'' \<mapsto> ustr ''A'', ustr ''Total Cost'' \<mapsto> ustr ''B'',
             ustr ''Quantity + Price'' \<mapsto> ustr ''C'']"
  have e: "parse_trade_file (ustr ''only a header\<newline>\<newline>A\<newline>B\<newline>C'') = Inr [?r]"
    by (simp add: parse_trade_file_def parse_trade_text_eq eval_blocks_doc eval_block_short
        eval_block_abc spec_record_three spec_record_short)
  from record_invariant[of "ustr ''only a header\<newline>\<newline>A\<newline>B\<newline>C''"] e
  have 1: "dom ?r \<subseteq> {ustr ''header'', ustr ''Total Cost'', ustr ''Quantity + Price''}
                     \<union> set labels"
    by auto
  from record_invariant[of "ustr '' \<newline>  \<newline>''"] eval_blank_doc
  have 2: "parse_trade_file (ustr '' \<newline>  \<newline>'') = Inr []"
    by auto
  from e 1 2 show ?thesis by blast
qed

end
